theory Spec2Isabelle
  imports Main "HOL-Library.AList" "HOL-Library.Multiset"
begin

section \<open>JavaScript values\<close>

text \<open>
  The sync engine (\<^verbatim>\<open>src/js/sync.js\<close>) and the store (\<^verbatim>\<open>src/js/database.js\<close>)
  work on untyped JavaScript values: entities and signaling payloads are plain objects.
  A value is modelled by \<open>jsval\<close>; an object is its list of own properties in insertion
  order, with distinct keys. Numbers are the integers (timestamps in milliseconds, orders,
  line indices); a string is its list of code units.
\<close>

datatype jsval =
    JUndefined
  | JNull
  | JBool bool
  | JNum int
  | JStr string
  | JArr "jsval list"
  | JObj "(string \<times> jsval) list"

type_synonym obj = "(string \<times> jsval) list"

text \<open>The truth value of \<^verbatim>\<open>if (v)\<close>, \<^verbatim>\<open>!v\<close> and \<^verbatim>\<open>v || w\<close>.\<close>

fun truthy :: "jsval \<Rightarrow> bool" where
  "truthy JUndefined = False"
| "truthy JNull = False"
| "truthy (JBool b) = b"
| "truthy (JNum n) = (n \<noteq> 0)"
| "truthy (JStr s) = (s \<noteq> [])"
| "truthy (JArr xs) = True"
| "truthy (JObj ps) = True"

text \<open>\<^verbatim>\<open>a || b\<close> and \<^verbatim>\<open>a ?? b\<close>.\<close>

definition orElse :: "jsval \<Rightarrow> jsval \<Rightarrow> jsval" where
  "orElse a b = (if truthy a then a else b)"

definition nullish :: "jsval \<Rightarrow> jsval \<Rightarrow> jsval" where
  "nullish a b = (if a = JUndefined \<or> a = JNull then b else a)"

text \<open>
  Property read \<^verbatim>\<open>o.k\<close> (a missing property reads as \<^verbatim>\<open>undefined\<close>), property write
  \<^verbatim>\<open>o.k = v\<close> (in place when the key exists, appended otherwise), \<^verbatim>\<open>delete o.k\<close>, and
  the copy of all properties of \<open>ps\<close> into \<open>acc\<close> that an object spread
  \<^verbatim>\<open>{ ...acc, ...ps }\<close> performs, one property after the other.
\<close>

definition getProp :: "obj \<Rightarrow> string \<Rightarrow> jsval" where
  "getProp ob k = (case map_of ob k of None \<Rightarrow> JUndefined | Some v \<Rightarrow> v)"

definition setProp :: "string \<Rightarrow> jsval \<Rightarrow> obj \<Rightarrow> obj" where
  "setProp k v ob = AList.update k v ob"

definition deleteProp :: "string \<Rightarrow> obj \<Rightarrow> obj" where
  "deleteProp k ob = AList.delete k ob"

definition assign :: "obj \<Rightarrow> (string \<times> jsval) list \<Rightarrow> obj" where
  "assign acc ps = foldl (\<lambda>ob (k, v). setProp k v ob) acc ps"

section \<open>The store (\<^verbatim>\<open>src/js/database.js\<close>)\<close>

text \<open>
  The exceptions of the model: from the store, from the validation of a signaling payload
  (\<^verbatim>\<open>throw new Error(\<dots>)\<close> after the test of \<^verbatim>\<open>type\<close>), from \<^verbatim>\<open>JSON.parse\<close>, from a property
  read on \<^verbatim>\<open>null\<close>, from the WebRTC calls, from the wait for the channel, and from
  \<^verbatim>\<open>sendMessage\<close>.
\<close>

text \<open>
  Each of the object stores \<^verbatim>\<open>folders\<close>, \<^verbatim>\<open>notebooks\<close> and \<^verbatim>\<open>notes\<close> is created with
  \<^verbatim>\<open>keyPath: 'id'\<close>: it is a map from keys to objects, and \<^verbatim>\<open>put\<close> files a value under
  its own \<^verbatim>\<open>id\<close>. IndexedDB accepts numbers, strings and arrays of keys as keys; \<^verbatim>\<open>get\<close>
  and \<^verbatim>\<open>put\<close> fail with a \<^verbatim>\<open>DataError\<close> on any other key.
\<close>

datatype error =
    DataError
  | InvalidSignaling
  | SyntaxError
  | TypeError
  | RtcFailure
  | ConnectionTimeout
  | ChannelMissing
  | ChannelNotReady
  | ChannelClosedWhileSending

type_synonym objstore = "jsval \<rightharpoonup> obj"

fun validKey :: "jsval \<Rightarrow> bool" where
  "validKey (JNum n) = True"
| "validKey (JStr s) = True"
| "validKey (JArr xs) = list_all validKey xs"
| "validKey v = False"

definition dbGet :: "objstore \<Rightarrow> jsval \<Rightarrow> error + obj option" where
  "dbGet st k = (if validKey k then Inr (st k) else Inl DataError)"

definition dbUpdate :: "objstore \<Rightarrow> obj \<Rightarrow> error + objstore" where
  "dbUpdate st v =
     (if validKey (getProp v ''id'') then Inr (st(getProp v ''id'' \<mapsto> v)) else Inl DataError)"

text \<open>
  The readings of the clock that one call of an upsert takes: \<^verbatim>\<open>Date.now()\<close> for the
  order, \<^verbatim>\<open>new Date().toISOString()\<close> for \<^verbatim>\<open>createdAt\<close> and again for \<^verbatim>\<open>updatedAt\<close>.
\<close>

record clock =
  dateNow :: int
  isoCreated :: string
  isoUpdated :: string

text \<open>
  The default display names are Chinese string literals in the source; they are kept here
  as their UTF-8 bytes.
\<close>

definition defaultFolderName :: string where
  "defaultFolderName =
     [CHR 0xE6, CHR 0x96, CHR 0xB0, CHR 0xE5, CHR 0xBB, CHR 0xBA, CHR 0xE6, CHR 0x96, CHR 0x87,
      CHR 0xE4, CHR 0xBB, CHR 0xB6, CHR 0xE5, CHR 0xA4, CHR 0xB9]"

definition defaultNotebookName :: string where
  "defaultNotebookName =
     [CHR 0xE6, CHR 0x96, CHR 0xB0, CHR 0xE5, CHR 0xBB, CHR 0xBA, CHR 0xE7, CHR 0xAC, CHR 0x94,
      CHR 0xE8, CHR 0xAE, CHR 0xB0, CHR 0xE6, CHR 0x9C, CHR 0xAC]"

definition defaultNoteTitle :: string where
  "defaultNoteTitle =
     [CHR 0xE6, CHR 0x96, CHR 0xB0, CHR 0xE5, CHR 0xBB, CHR 0xBA, CHR 0xE7, CHR 0xAC, CHR 0x94,
      CHR 0xE8, CHR 0xAE, CHR 0xB0]"

text \<open>The required fields that each upsert lists before \<^verbatim>\<open>...data\<close> when it creates.\<close>

definition folderFields :: "clock \<Rightarrow> obj \<Rightarrow> (string \<times> jsval) list" where
  "folderFields clk data =
     [(''id'', getProp data ''id''),
      (''name'', orElse (getProp data ''name'') (JStr defaultFolderName)),
      (''parentId'', nullish (getProp data ''parentId'') JNull),
      (''order'', orElse (getProp data ''order'') (JNum (dateNow clk))),
      (''createdAt'', orElse (getProp data ''createdAt'') (JStr (isoCreated clk))),
      (''updatedAt'', orElse (getProp data ''updatedAt'') (JStr (isoUpdated clk)))]"

definition notebookFields :: "clock \<Rightarrow> obj \<Rightarrow> (string \<times> jsval) list" where
  "notebookFields clk data =
     [(''id'', getProp data ''id''),
      (''name'', orElse (getProp data ''name'') (JStr defaultNotebookName)),
      (''folderId'', nullish (getProp data ''folderId'') JNull),
      (''order'', orElse (getProp data ''order'') (JNum (dateNow clk))),
      (''pageStyle'', orElse (getProp data ''pageStyle'')
          (JObj [(''pattern'', JStr ''blank''), (''color'', JStr ''#ffffff'')])),
      (''createdAt'', orElse (getProp data ''createdAt'') (JStr (isoCreated clk))),
      (''updatedAt'', orElse (getProp data ''updatedAt'') (JStr (isoUpdated clk)))]"

definition noteFields :: "clock \<Rightarrow> obj \<Rightarrow> (string \<times> jsval) list" where
  "noteFields clk data =
     [(''id'', getProp data ''id''),
      (''title'', orElse (getProp data ''title'') (JStr defaultNoteTitle)),
      (''type'', orElse (getProp data ''type'') (JStr ''text'')),
      (''content'', orElse (getProp data ''content'') (JStr '''')),
      (''notebookId'', getProp data ''notebookId''),
      (''order'', orElse (getProp data ''order'') (JNum (dateNow clk))),
      (''createdAt'', orElse (getProp data ''createdAt'') (JStr (isoCreated clk))),
      (''updatedAt'', orElse (getProp data ''updatedAt'') (JStr (isoUpdated clk)))]"

text \<open>
  \<^verbatim>\<open>upsertFolder\<close>, \<^verbatim>\<open>upsertNotebook\<close> and \<^verbatim>\<open>upsertNote\<close> have one body, up to the store
  and the required fields: read the stored object under \<^verbatim>\<open>data.id\<close>; when there is one,
  store \<^verbatim>\<open>{ ...existing, ...data, updatedAt: data.updatedAt || now }\<close>; otherwise store
  \<^verbatim>\<open>{ required fields, ...data }\<close>. \<open>upserted\<close> is the object that is stored.
\<close>

definition upserted ::
  "(clock \<Rightarrow> obj \<Rightarrow> (string \<times> jsval) list) \<Rightarrow> clock \<Rightarrow> obj option \<Rightarrow> obj \<Rightarrow> obj"
where
  "upserted req clk existing data =
     (case existing of
        Some ex \<Rightarrow>
          assign (assign (assign [] ex) data)
            [(''updatedAt'', orElse (getProp data ''updatedAt'') (JStr (isoUpdated clk)))]
      | None \<Rightarrow> assign (assign [] (req clk data)) data)"

definition upsertWith ::
  "(clock \<Rightarrow> obj \<Rightarrow> (string \<times> jsval) list) \<Rightarrow> clock \<Rightarrow> objstore \<Rightarrow> obj \<Rightarrow> error + objstore"
where
  "upsertWith req clk st data =
     (case dbGet st (getProp data ''id'') of
        Inl err \<Rightarrow> Inl err
      | Inr existing \<Rightarrow> dbUpdate st (upserted req clk existing data))"

definition upsertFolder :: "clock \<Rightarrow> objstore \<Rightarrow> obj \<Rightarrow> error + objstore" where
  "upsertFolder = upsertWith folderFields"

definition upsertNotebook :: "clock \<Rightarrow> objstore \<Rightarrow> obj \<Rightarrow> error + objstore" where
  "upsertNotebook = upsertWith notebookFields"

definition upsertNote :: "clock \<Rightarrow> objstore \<Rightarrow> obj \<Rightarrow> error + objstore" where
  "upsertNote = upsertWith noteFields"

section \<open>Reconciliation (\<^verbatim>\<open>mergeRemoteData\<close>)\<close>

text \<open>Decimal rendering of a number, as string conversion and template literals do it.\<close>

definition digitChar :: "nat \<Rightarrow> char" where
  "digitChar d = char_of (48 + d)"

fun natToString :: "nat \<Rightarrow> string" where
  "natToString n = (if n < 10 then [digitChar n] else natToString (n div 10) @ [digitChar (n mod 10)])"

declare natToString.simps [simp del]

definition intToString :: "int \<Rightarrow> string" where
  "intToString i = (if i < 0 then CHR ''-'' # natToString (nat (- i)) else natToString (nat i))"

fun joinWith :: "string \<Rightarrow> string list \<Rightarrow> string" where
  "joinWith sep [] = []"
| "joinWith sep [x] = x"
| "joinWith sep (x # y # ys) = x @ sep @ joinWith sep (y # ys)"

text \<open>
  String conversion of a value; \<^verbatim>\<open>new Date(v)\<close> applies it to an array or an object
  before parsing.
\<close>

fun toStringJS :: "jsval \<Rightarrow> string" where
  "toStringJS JUndefined = ''undefined''"
| "toStringJS JNull = ''null''"
| "toStringJS (JBool b) = (if b then ''true'' else ''false'')"
| "toStringJS (JNum n) = intToString n"
| "toStringJS (JStr s) = s"
| "toStringJS (JArr xs) =
     joinWith '','' (map (\<lambda>x. if x = JUndefined \<or> x = JNull then [] else toStringJS x) xs)"
| "toStringJS (JObj ps) = ''[object Object]''"

text \<open>
  The time value of \<^verbatim>\<open>new Date(v)\<close>, \<open>None\<close> for an invalid date (\<^verbatim>\<open>NaN\<close>). The parser
  of date strings belongs to the platform and is a parameter; the empty string is no date.
\<close>

definition newDate :: "(string \<Rightarrow> int option) \<Rightarrow> jsval \<Rightarrow> int option" where
  "newDate parse v =
     (case v of
        JUndefined \<Rightarrow> None
      | JNull \<Rightarrow> Some 0
      | JBool b \<Rightarrow> Some (if b then 1 else 0)
      | JNum n \<Rightarrow> (if \<bar>n\<bar> \<le> 8640000000000000 then Some n else None)
      | _ \<Rightarrow> (if toStringJS v = [] then None else parse (toStringJS v)))"

text \<open>\<^verbatim>\<open>new Date(a) > new Date(b)\<close>: false as soon as one side is invalid.\<close>

definition dateGreater :: "(string \<Rightarrow> int option) \<Rightarrow> jsval \<Rightarrow> jsval \<Rightarrow> bool" where
  "dateGreater parse a b =
     (case (newDate parse a, newDate parse b) of
        (Some x, Some y) \<Rightarrow> y < x
      | _ \<Rightarrow> False)"

text \<open>
  One turn of a merge loop, on the store and the running count. An exception of the store
  is caught and logged inside the loop: the entity is skipped.
\<close>

definition mergeEntity ::
  "(clock \<Rightarrow> objstore \<Rightarrow> obj \<Rightarrow> error + objstore) \<Rightarrow> (string \<Rightarrow> int option) \<Rightarrow> clock \<Rightarrow> obj
     \<Rightarrow> objstore \<times> nat \<Rightarrow> objstore \<times> nat"
where
  "mergeEntity upsert parse clk e acc =
     (case dbGet (fst acc) (getProp e ''id'') of
        Inl err \<Rightarrow> acc
      | Inr local \<Rightarrow>
          if local = None
             \<or> dateGreater parse (getProp e ''updatedAt'') (getProp (the local) ''updatedAt'')
          then (case upsert clk (fst acc) e of
                  Inl err \<Rightarrow> acc
                | Inr st' \<Rightarrow> (st', snd acc + 1))
          else acc)"

text \<open>
  The loop over one collection. The \<open>i\<close>-th entity of a merge reads the clock as
  \<open>clk i\<close>.
\<close>

fun mergeLoop ::
  "(clock \<Rightarrow> objstore \<Rightarrow> obj \<Rightarrow> error + objstore) \<Rightarrow> (string \<Rightarrow> int option) \<Rightarrow> (nat \<Rightarrow> clock) \<Rightarrow> nat
     \<Rightarrow> obj list \<Rightarrow> objstore \<times> nat \<Rightarrow> objstore \<times> nat"
where
  "mergeLoop upsert parse clk i [] acc = acc"
| "mergeLoop upsert parse clk i (e # es) acc =
     mergeLoop upsert parse clk (Suc i) es (mergeEntity upsert parse (clk i) e acc)"

record database =
  dbFolders :: objstore
  dbNotebooks :: objstore
  dbNotes :: objstore

text \<open>A \<^verbatim>\<open>sync_data\<close> or \<^verbatim>\<open>sync_ack\<close> message; a collection may be missing.\<close>

record snapshot =
  msgNotes :: "obj list option"
  msgNotebooks :: "obj list option"
  msgFolders :: "obj list option"

record mergedCount =
  cntNotes :: nat
  cntNotebooks :: nat
  cntFolders :: nat

definition collection :: "obj list option \<Rightarrow> obj list" where
  "collection c = (case c of None \<Rightarrow> [] | Some es \<Rightarrow> es)"

definition mergeRemoteData ::
  "(string \<Rightarrow> int option) \<Rightarrow> (nat \<Rightarrow> clock) \<Rightarrow> snapshot \<Rightarrow> database \<Rightarrow> database \<times> mergedCount"
where
  "mergeRemoteData parse clk message db =
     (let fs = collection (msgFolders message);
          nbs = collection (msgNotebooks message);
          ns = collection (msgNotes message);
          f = mergeLoop upsertFolder parse clk 0 fs (dbFolders db, 0);
          nb = mergeLoop upsertNotebook parse clk (length fs) nbs (dbNotebooks db, 0);
          n = mergeLoop upsertNote parse clk (length fs + length nbs) ns (dbNotes db, 0)
      in (\<lparr>dbFolders = fst f, dbNotebooks = fst nb, dbNotes = fst n\<rparr>,
          \<lparr>cntNotes = snd n, cntNotebooks = snd nb, cntFolders = snd f\<rparr>))"

section \<open>Signaling codec (\<^verbatim>\<open>compactSignaling\<close>, \<^verbatim>\<open>expandSignaling\<close>)\<close>

text \<open>
  The pair of statements \<^verbatim>\<open>result.b = v; delete result.a;\<close> that both functions repeat.
\<close>

definition moveProp :: "string \<Rightarrow> string \<Rightarrow> jsval \<Rightarrow> obj \<Rightarrow> obj" where
  "moveProp a b v result = deleteProp a (setProp b v result)"

text \<open>
  A value that is falsy or no object is returned as it is; an array is mapped item by item
  with \<^verbatim>\<open>isRoot = false\<close>; an object is copied (\<^verbatim>\<open>{ ...data }\<close>) and its known keys are
  renamed, each under the test that the source makes (\<^verbatim>\<open>if (result.type)\<close>, \<open>\<dots>\<close>,
  \<^verbatim>\<open>if (result.sdpMLineIndex !== undefined)\<close>).
\<close>

function compactSignaling :: "jsval \<Rightarrow> bool \<Rightarrow> jsval" where
  "compactSignaling (JArr xs) isRoot = JArr (map (\<lambda>item. compactSignaling item False) xs)"
| "compactSignaling (JObj ps) True =
     (let result = assign [] ps;
          r1 = (if truthy (getProp result ''type'')
                then moveProp ''type'' ''t'' (getProp result ''type'') result else result);
          r2 = (if truthy (getProp r1 ''sdp'')
                then moveProp ''sdp'' ''s'' (getProp r1 ''sdp'') r1 else r1)
      in if truthy (getProp r2 ''candidates'')
         then JObj (moveProp ''candidates'' ''c''
                      (compactSignaling (getProp r2 ''candidates'') False) r2)
         else JObj r2)"
| "compactSignaling (JObj ps) False =
     (let result = assign [] ps;
          r1 = (if truthy (getProp result ''candidate'')
                then moveProp ''candidate'' ''c'' (getProp result ''candidate'') result else result);
          r2 = (if truthy (getProp r1 ''sdpMid'')
                then moveProp ''sdpMid'' ''m'' (getProp r1 ''sdpMid'') r1 else r1);
          r3 = (if getProp r2 ''sdpMLineIndex'' \<noteq> JUndefined
                then moveProp ''sdpMLineIndex'' ''i'' (getProp r2 ''sdpMLineIndex'') r2 else r2)
      in JObj r3)"
| "compactSignaling JUndefined isRoot = JUndefined"
| "compactSignaling JNull isRoot = JNull"
| "compactSignaling (JBool b) isRoot = JBool b"
| "compactSignaling (JNum n) isRoot = JNum n"
| "compactSignaling (JStr s) isRoot = JStr s"
  by pat_completeness auto

function expandSignaling :: "jsval \<Rightarrow> bool \<Rightarrow> jsval" where
  "expandSignaling (JArr xs) isRoot = JArr (map (\<lambda>item. expandSignaling item False) xs)"
| "expandSignaling (JObj ps) True =
     (let result = assign [] ps;
          r1 = (if truthy (getProp result ''t'')
                then moveProp ''t'' ''type'' (getProp result ''t'') result else result);
          r2 = (if truthy (getProp r1 ''s'')
                then moveProp ''s'' ''sdp'' (getProp r1 ''s'') r1 else r1)
      in if truthy (getProp r2 ''c'')
         then JObj (moveProp ''c'' ''candidates''
                      (expandSignaling (getProp r2 ''c'') False) r2)
         else JObj r2)"
| "expandSignaling (JObj ps) False =
     (let result = assign [] ps;
          r1 = (if truthy (getProp result ''c'')
                then moveProp ''c'' ''candidate'' (getProp result ''c'') result else result);
          r2 = (if truthy (getProp r1 ''m'')
                then moveProp ''m'' ''sdpMid'' (getProp r1 ''m'') r1 else r1);
          r3 = (if getProp r2 ''i'' \<noteq> JUndefined
                then moveProp ''i'' ''sdpMLineIndex'' (getProp r2 ''i'') r2 else r2)
      in JObj r3)"
| "expandSignaling JUndefined isRoot = JUndefined"
| "expandSignaling JNull isRoot = JNull"
| "expandSignaling (JBool b) isRoot = JBool b"
| "expandSignaling (JNum n) isRoot = JNum n"
| "expandSignaling (JStr s) isRoot = JStr s"
  by pat_completeness auto

text \<open>
  Both functions terminate: the recursive calls are on an item of the array, or on a
  property value of the object, and the renamings before the call only move values.
\<close>

lemma vals_setProp: "snd ` set (setProp k v r) \<subseteq> insert v (snd ` set r)"
  unfolding setProp_def by (induction r) auto

lemma vals_deleteProp: "snd ` set (deleteProp k r) \<subseteq> snd ` set r"
  unfolding deleteProp_def by (induction r) auto

lemma vals_moveProp: "snd ` set (moveProp a b v r) \<subseteq> insert v (snd ` set r)"
  unfolding moveProp_def using vals_deleteProp [of a "setProp b v r"] vals_setProp [of b v r]
  by (rule subset_trans)


lemma vals_assign: "snd ` set (assign acc ps) \<subseteq> snd ` set acc \<union> snd ` set ps"
proof (induction ps arbitrary: acc)
  case Nil
  show ?case by (simp add: assign_def)
next
  case (Cons p ps)
  obtain k v where p: "p = (k, v)" by (cases p)
  have a: "assign acc ((k, v) # ps) = assign (setProp k v acc) ps" by (simp add: assign_def)
  have "snd ` set (assign (setProp k v acc) ps) \<subseteq> snd ` set (setProp k v acc) \<union> snd ` set ps"
    by (rule Cons.IH)
  also have "\<dots> \<subseteq> insert v (snd ` set acc) \<union> snd ` set ps"
    using vals_setProp [of k v acc] by blast
  finally show ?case by (simp add: a p)
qed

lemma getProp_vals: "getProp r k \<noteq> JUndefined \<Longrightarrow> getProp r k \<in> snd ` set r"
proof -
  assume "getProp r k \<noteq> JUndefined"
  then obtain v where m: "map_of r k = Some v" and g: "getProp r k = v"
    by (cases "map_of r k") (simp_all add: getProp_def)
  have "(k, v) \<in> set r" by (rule map_of_SomeD [OF m])
  then have "snd (k, v) \<in> snd ` set r" by (rule imageI)
  then show ?thesis by (simp add: g)
qed

lemma truthy_defined: "truthy v \<Longrightarrow> v \<noteq> JUndefined"
  by (cases v) simp_all

lemma size_vals: "v \<in> snd ` set ps \<Longrightarrow> size v < size (JObj ps)"
proof -
  assume "v \<in> snd ` set ps"
  then obtain k where "(k, v) \<in> set ps" by auto
  then have "size_prod (\<lambda>_. 0) size (k, v) \<le> size_list (size_prod (\<lambda>_. 0) size) ps"
    by (intro size_list_estimation' [where x = "(k, v)"]) simp_all
  then show ?thesis by simp
qed


text \<open>The values of the object after the first two renamings are values of the argument.\<close>

lemma vals_renamed_step:
  assumes "r1 = (if truthy (getProp result a) then moveProp a b (getProp result a) result else result)"
  shows "snd ` set r1 \<subseteq> snd ` set result"
proof (cases "truthy (getProp result a)")
  case True
  have "getProp result a \<in> snd ` set result"
    by (rule getProp_vals [OF truthy_defined [OF True]])
  then have "insert (getProp result a) (snd ` set result) = snd ` set result" by blast
  then show ?thesis
    using vals_moveProp [of a b "getProp result a" result] True by (simp add: assms)
next
  case False
  then show ?thesis by (simp add: assms)
qed



lemma vals_renamed:
  assumes r1: "r1 = (if truthy (getProp result a1) then moveProp a1 b1 (getProp result a1) result else result)"
    and r2: "r2 = (if truthy (getProp r1 a2) then moveProp a2 b2 (getProp r1 a2) r1 else r1)"
    and r0: "result = assign [] ps"
  shows "snd ` set r2 \<subseteq> snd ` set ps"
proof -
  have "snd ` set (assign [] ps) \<subseteq> snd ` set ps" using vals_assign [of "[]" ps] by simp
  then have 0: "snd ` set result \<subseteq> snd ` set ps" unfolding r0 .
  have 1: "snd ` set r1 \<subseteq> snd ` set result" by (rule vals_renamed_step [OF r1])
  have 2: "snd ` set r2 \<subseteq> snd ` set r1" by (rule vals_renamed_step [OF r2])
  from 2 1 0 show ?thesis by (meson subset_trans)
qed

lemma size_item: "item \<in> set xs \<Longrightarrow> size item < size (JArr xs)"
proof -
  assume "item \<in> set xs"
  then have "size item \<le> size_list size xs"
    by (intro size_list_estimation' [where x = item]) simp_all
  then show ?thesis by simp
qed

termination compactSignaling
proof (relation "measure (\<lambda>(v, r). size v)", goal_cases)
  case 1
  show ?case by simp
next
  case (2 xs isRoot item)
  show ?case using size_item [OF 2] by simp
next
  case (3 ps result r1 r2)
  have "getProp r2 ''candidates'' \<in> snd ` set ps"
    using vals_renamed [OF 3(2) 3(3) 3(1)] getProp_vals [of r2 "''candidates''"]
      truthy_defined [OF 3(4)] by blast
  from size_vals [OF this] show ?case by simp
qed

termination expandSignaling
proof (relation "measure (\<lambda>(v, r). size v)", goal_cases)
  case 1
  show ?case by simp
next
  case (2 xs isRoot item)
  show ?case using size_item [OF 2] by simp
next
  case (3 ps result r1 r2)
  have "getProp r2 ''c'' \<in> snd ` set ps"
    using vals_renamed [OF 3(2) 3(3) 3(1)] getProp_vals [of r2 "''c''"]
      truthy_defined [OF 3(4)] by blast
  from size_vals [OF this] show ?case by simp
qed

text \<open>
  Deep equality of two values, up to the order of the fields of an object: the same keys, and
  equal values under each key.
\<close>

function (sequential) deepEq :: "jsval \<Rightarrow> jsval \<Rightarrow> bool" where
  "deepEq (JArr xs) (JArr ys) = list_all2 deepEq xs ys"
| "deepEq (JObj ps) (JObj qs) =
     (fst ` set ps = fst ` set qs
      \<and> (\<forall>k \<in> fst ` set ps. deepEq (getProp ps k) (getProp qs k)))"
| "deepEq a b = (a = b)"
  by pat_completeness auto

lemma getProp_key_vals: "k \<in> fst ` set ps \<Longrightarrow> getProp ps k \<in> snd ` set ps"
proof -
  assume "k \<in> fst ` set ps"
  then obtain v where m: "map_of ps k = Some v"
    by (cases "map_of ps k") (simp_all add: map_of_eq_None_iff)
  have "(k, v) \<in> set ps" by (rule map_of_SomeD [OF m])
  then have "snd (k, v) \<in> snd ` set ps" by (rule imageI)
  then show ?thesis by (simp add: getProp_def m)
qed

termination deepEq
proof (relation "measure (\<lambda>(a, b). size a)", goal_cases)
  case 1
  show ?case by simp
next
  case (2 xs ys x y)
  show ?case using size_item [OF 2(1)] by simp
next
  case (3 ps qs k)
  from size_vals [OF getProp_key_vals [OF 3]] show ?case by simp
qed

text \<open>
  A well-formed payload for \<^verbatim>\<open>compactSignaling\<close>: no object has a key twice, the root
  object has none of the short keys \<open>t\<close>, \<open>s\<close>, \<open>c\<close> that the root renaming produces, and no
  candidate object has one of the short keys \<open>c\<close>, \<open>m\<close>, \<open>i\<close>. Any other key may occur.
\<close>

fun wfSignaling :: "jsval \<Rightarrow> bool \<Rightarrow> bool" where
  "wfSignaling (JArr xs) isRoot = (\<forall>x \<in> set xs. wfSignaling x False)"
| "wfSignaling (JObj ps) True =
     (distinct (map fst ps)
      \<and> ''t'' \<notin> fst ` set ps \<and> ''s'' \<notin> fst ` set ps \<and> ''c'' \<notin> fst ` set ps
      \<and> (\<forall>(k, v) \<in> set ps. k = ''candidates'' \<longrightarrow> wfSignaling v False))"
| "wfSignaling (JObj ps) False =
     (distinct (map fst ps)
      \<and> ''c'' \<notin> fst ` set ps \<and> ''m'' \<notin> fst ` set ps \<and> ''i'' \<notin> fst ` set ps)"
| "wfSignaling v isRoot = True"

section \<open>Signaling fragments (\<^verbatim>\<open>splitIntoChunks\<close>, \<^verbatim>\<open>wrapChunk\<close>, \<^verbatim>\<open>parseChunk\<close>)\<close>

text \<open>\<^verbatim>\<open>text.slice(a, b)\<close> for \<open>0 \<le> a\<close> and \<open>0 \<le> b\<close>; both ends are clamped to the length.\<close>

definition slice :: "'a list \<Rightarrow> nat \<Rightarrow> nat \<Rightarrow> 'a list" where
  "slice text a b = take (b - a) (drop a text)"

text \<open>
  The loop \<^verbatim>\<open>for (let i = 0; i < text.length; i += chunkSize) chunks.push(text.slice(i, i + chunkSize))\<close>.
  Nothing in the source keeps \<open>chunkSize\<close> away from \<open>0\<close>, where the loop does not advance:
  the loop is a partial function, and \<open>None\<close> stands for a call that never returns.
\<close>

partial_function (option) splitLoop :: "string \<Rightarrow> nat \<Rightarrow> nat \<Rightarrow> string list \<Rightarrow> string list option"
where
  "splitLoop text chunkSize i chunks =
     (if i < length text
      then splitLoop text chunkSize (i + chunkSize) (chunks @ [slice text i (i + chunkSize)])
      else Some chunks)"

definition splitIntoChunks :: "string \<Rightarrow> nat \<Rightarrow> string list option" where
  "splitIntoChunks text chunkSize = splitLoop text chunkSize 0 []"

text \<open>\<^verbatim>\<open>`KTN1:${index}/${total}:${payload}`\<close>\<close>

definition wrapChunk :: "nat \<Rightarrow> nat \<Rightarrow> string \<Rightarrow> string" where
  "wrapChunk index tot payload =
     ''KTN1:'' @ natToString index @ ''/'' @ natToString tot @ '':'' @ payload"

text \<open>
  The fragments that \<^verbatim>\<open>renderQRCodes\<close> shows for a list of chunks:
  \<^verbatim>\<open>wrapChunk(index + 1, chunks.length, chunks[index])\<close>.
\<close>

definition showQR :: "string list \<Rightarrow> nat \<Rightarrow> string" where
  "showQR chunks index = wrapChunk (index + 1) (length chunks) (chunks ! index)"

text \<open>
  \<^verbatim>\<open>raw.match(/^KTN1:(\d+)\/(\d+):([\s\S]+)$/)\<close>. A run of digits is followed by a character
  that is no digit, so the greedy match of \<^verbatim>\<open>\d+\<close> is the only one; the rest must not be
  empty. \<^verbatim>\<open>parseInt(_, 10)\<close> reads the digits.
\<close>

definition isDigit :: "char \<Rightarrow> bool" where
  "isDigit c = (48 \<le> (of_char c :: nat) \<and> (of_char c :: nat) \<le> 57)"

definition parseInt :: "string \<Rightarrow> nat" where
  "parseInt ds = foldl (\<lambda>a c. 10 * a + (of_char c - 48)) 0 ds"

fun stripPrefix :: "string \<Rightarrow> string \<Rightarrow> string option" where
  "stripPrefix [] s = Some s"
| "stripPrefix (p # ps) [] = None"
| "stripPrefix (p # ps) (c # cs) = (if p = c then stripPrefix ps cs else None)"

record chunk =
  chunkIndex :: nat
  chunkTotal :: nat
  chunkPayload :: string

definition parseChunk :: "string \<Rightarrow> chunk option" where
  "parseChunk raw =
     (case stripPrefix ''KTN1:'' raw of
        None \<Rightarrow> None
      | Some r1 \<Rightarrow>
          (case (takeWhile isDigit r1, dropWhile isDigit r1) of
             (d1, c1 # r2) \<Rightarrow>
               (case (takeWhile isDigit r2, dropWhile isDigit r2) of
                  (d2, c2 # r3) \<Rightarrow>
                    if d1 \<noteq> [] \<and> c1 = CHR ''/'' \<and> d2 \<noteq> [] \<and> c2 = CHR '':'' \<and> r3 \<noteq> []
                    then Some \<lparr>chunkIndex = parseInt d1, chunkTotal = parseInt d2,
                                chunkPayload = r3\<rparr>
                    else None
                | _ \<Rightarrow> None)
           | _ \<Rightarrow> None))"

text \<open>
  The scan state of the engine: \<^verbatim>\<open>scanChunks\<close> is a \<^verbatim>\<open>Map\<close> from fragment index to payload,
  kept in insertion order; \<^verbatim>\<open>lastScanTime\<close> and \<^verbatim>\<open>lastScanData\<close> belong to the camera loop.
\<close>

record scanState =
  scanChunks :: "(nat \<times> string) list"
  scanChunkTotal :: nat
  lastScanTime :: nat
  lastScanData :: string

definition resetScanChunks :: "scanState" where
  "resetScanChunks = \<lparr>scanChunks = [], scanChunkTotal = 0, lastScanTime = 0, lastScanData = []\<rparr>"

datatype scanResult = Incomplete | Complete string

text \<open>
  \<^verbatim>\<open>handleScannedPayload\<close>. The progress line that it writes to the page is left out.
  \<^verbatim>\<open>scanChunks.get(i) || ''\<close> reads a missing fragment as the empty string.
\<close>

definition ordered :: "(nat \<times> string) list \<Rightarrow> nat \<Rightarrow> string list" where
  "ordered chunks tot =
     map (\<lambda>i. case map_of chunks i of None \<Rightarrow> [] | Some p \<Rightarrow> p) [1..<Suc tot]"

definition handleScannedPayload :: "scanState \<Rightarrow> string \<Rightarrow> scanState \<times> scanResult" where
  "handleScannedPayload st raw =
     (case parseChunk raw of
        None \<Rightarrow> (st, Complete raw)
      | Some c \<Rightarrow>
          (let st1 = (if scanChunkTotal st = 0 \<or> scanChunkTotal st \<noteq> chunkTotal c
                      then st\<lparr>scanChunkTotal := chunkTotal c\<rparr> else st);
               st2 = st1\<lparr>scanChunks := AList.update (chunkIndex c) (chunkPayload c) (scanChunks st1)\<rparr>
           in if length (scanChunks st2) < scanChunkTotal st2
              then (st2, Incomplete)
              else (st2, Complete (concat (ordered (scanChunks st2) (scanChunkTotal st2))))))"

text \<open>Scanning a sequence of codes, one call each; the results are listed in order.\<close>

definition scanAll :: "scanState \<Rightarrow> string list \<Rightarrow> scanState \<times> scanResult list" where
  "scanAll st raws =
     foldl (\<lambda>acc raw. (fst (handleScannedPayload (fst acc) raw),
                       snd acc @ [snd (handleScannedPayload (fst acc) raw)])) (st, []) raws"

section \<open>The data channel (\<^verbatim>\<open>sendMessage\<close>, \<^verbatim>\<open>setupDataChannel\<close>)\<close>

text \<open>
  What travels over the channel is text. A frame stands for the text that
  \<^verbatim>\<open>JSON.stringify\<close> writes and \<^verbatim>\<open>JSON.parse\<close> reads back: a chunk envelope
  \<^verbatim>\<open>{ type: '__chunk__', chunkId, index, total, data }\<close>, or any other message, kept as its
  text.
\<close>

datatype frame =
    ChunkFrame string nat nat string
  | DataFrame string

datatype readyState = Connecting | Open | Closing | Closed

text \<open>
  \<^verbatim>\<open>Date.now().toString(36)\<close>: the digits of a number in base 36, \<open>0\<close> to \<open>9\<close> and then
  \<open>a\<close> to \<open>z\<close>.
\<close>

definition digit36 :: "nat \<Rightarrow> char" where
  "digit36 d = (if d < 10 then char_of (48 + d) else char_of (87 + d))"

fun toString36 :: "nat \<Rightarrow> string" where
  "toString36 n = (if n < 36 then [digit36 n] else toString36 (n div 36) @ [digit36 (n mod 36)])"

declare toString36.simps [simp del]

text \<open>
  What the sender observes of the transport while it waits: the \<open>k\<close>-th reading of
  \<^verbatim>\<open>channel.bufferedAmount\<close>, and the \<^verbatim>\<open>channel.readyState\<close> found after the pause that follows
  a reading above the limit.
\<close>

record transport =
  bufferedAmount :: "nat \<Rightarrow> nat"
  stateAfterPause :: "nat \<Rightarrow> readyState"

text \<open>
  \<^verbatim>\<open>while (channel.bufferedAmount > 65536) { await pause; if (channel.readyState !== 'open') throw \<dots> }\<close>.
  The loop may never end; \<open>None\<close> stands for that. It returns the number of the next reading.
\<close>

partial_function (option) waitForDrain :: "transport \<Rightarrow> nat \<Rightarrow> (error + nat) option" where
  "waitForDrain tr k =
     (if 65536 < bufferedAmount tr k
      then (if stateAfterPause tr k \<noteq> Open then Some (Inl ChannelClosedWhileSending)
            else waitForDrain tr (Suc k))
      else Some (Inr (Suc k)))"

definition MAX_CHUNK_SIZE :: nat where
  "MAX_CHUNK_SIZE = 16384"

text \<open>The envelope of chunk \<open>i\<close> of a message.\<close>

definition envelope :: "string \<Rightarrow> nat \<Rightarrow> string \<Rightarrow> nat \<Rightarrow> frame" where
  "envelope chunkId totalChunks data i =
     ChunkFrame chunkId i totalChunks (slice data (i * MAX_CHUNK_SIZE) ((i + 1) * MAX_CHUNK_SIZE))"

text \<open>
  The loop \<^verbatim>\<open>for (let i = 0; i < totalChunks; i++)\<close> over the indices still to send. The
  frames handed to \<^verbatim>\<open>channel.send\<close> so far are returned also when the loop throws.
\<close>

fun sendChunks ::
  "transport \<Rightarrow> string \<Rightarrow> nat \<Rightarrow> string \<Rightarrow> nat list \<Rightarrow> nat \<Rightarrow> frame list
     \<Rightarrow> (frame list \<times> (error + nat)) option"
where
  "sendChunks tr chunkId totalChunks data [] k out = Some (out, Inr k)"
| "sendChunks tr chunkId totalChunks data (i # is) k out =
     (case waitForDrain tr k of
        None \<Rightarrow> None
      | Some (Inl e) \<Rightarrow> Some (out, Inl e)
      | Some (Inr k') \<Rightarrow>
          sendChunks tr chunkId totalChunks data is k' (out @ [envelope chunkId totalChunks data i]))"

text \<open>
  The sender's part of the engine state: the ready state of \<^verbatim>\<open>currentDataChannel\<close> (\<open>None\<close>
  when there is no channel), the frames handed to \<^verbatim>\<open>channel.send\<close>, and \<^verbatim>\<open>sendQueue\<close>.
\<close>

record sender =
  currentDataChannel :: "readyState option"
  sent :: "frame list"
  sendQueue :: "string list"

text \<open>
  \<^verbatim>\<open>Math.ceil(data.length / MAX_CHUNK_SIZE)\<close>
\<close>

definition totalChunksOf :: "string \<Rightarrow> nat" where
  "totalChunksOf data = (length data + MAX_CHUNK_SIZE - 1) div MAX_CHUNK_SIZE"

text \<open>
  \<^verbatim>\<open>sendMessage\<close>, on the serialized payload. \<open>now\<close> is the reading of \<^verbatim>\<open>Date.now()\<close>, \<open>k\<close> the
  number of the next reading of the transport. The result is \<open>None\<close> when the call never
  returns, and otherwise the state with what the call returns or throws.
\<close>

definition sendMessage ::
  "transport \<Rightarrow> nat \<Rightarrow> nat \<Rightarrow> sender \<Rightarrow> string \<Rightarrow> bool \<Rightarrow> (sender \<times> (error + bool)) option"
where
  "sendMessage tr k now st data queueIfConnecting =
     (case currentDataChannel st of
        None \<Rightarrow> Some (st, Inl ChannelMissing)
      | Some rs \<Rightarrow>
          if rs = Open then
            (if MAX_CHUNK_SIZE < length data then
               (case sendChunks tr (toString36 now) (totalChunksOf data) data
                       [0..<totalChunksOf data] k (sent st) of
                  None \<Rightarrow> None
                | Some (out, Inl e) \<Rightarrow> Some (st\<lparr>sent := out\<rparr>, Inl e)
                | Some (out, Inr k') \<Rightarrow> Some (st\<lparr>sent := out\<rparr>, Inr True))
             else Some (st\<lparr>sent := sent st @ [DataFrame data]\<rparr>, Inr True))
          else if queueIfConnecting \<and> rs = Connecting
          then Some (st\<lparr>sendQueue := sendQueue st @ [data]\<rparr>, Inr False)
          else Some (st, Inl ChannelNotReady))"

text \<open>
  The receiving side. A reassembly buffer holds \<^verbatim>\<open>new Array(total)\<close>, an array with holes,
  the count of chunks received and the total of the first envelope seen. Writing at an index
  beyond the end extends the array; \<^verbatim>\<open>join('')\<close> reads a hole as the empty string.
\<close>

record chunkBuffer =
  bufChunks :: "string option list"
  bufReceived :: nat
  bufTotal :: nat

definition falsyAt :: "string option list \<Rightarrow> nat \<Rightarrow> bool" where
  "falsyAt xs i = (if i < length xs then (case xs ! i of None \<Rightarrow> True | Some s \<Rightarrow> s = []) else True)"

definition setAt :: "string option list \<Rightarrow> nat \<Rightarrow> string \<Rightarrow> string option list" where
  "setAt xs i v =
     (if i < length xs then xs[i := Some v] else xs @ replicate (i - length xs) None @ [Some v])"

definition joinChunks :: "string option list \<Rightarrow> string" where
  "joinChunks xs = concat (map (\<lambda>c. case c of None \<Rightarrow> [] | Some s \<Rightarrow> s) xs)"

text \<open>
  The \<^verbatim>\<open>message\<close> listener of \<^verbatim>\<open>setupDataChannel\<close>, on the map \<^verbatim>\<open>chunkBuffers\<close>. It returns
  the text that it hands to \<^verbatim>\<open>handleSyncMessage\<close>, if any.
\<close>

fun onMessage :: "(string \<rightharpoonup> chunkBuffer) \<Rightarrow> frame \<Rightarrow> (string \<rightharpoonup> chunkBuffer) \<times> string option"
where
  "onMessage chunkBuffers (ChunkFrame chunkId index tot data) =
     (let buffer = (case chunkBuffers chunkId of
                      None \<Rightarrow> \<lparr>bufChunks = replicate tot None, bufReceived = 0, bufTotal = tot\<rparr>
                    | Some b \<Rightarrow> b);
          buffer' = (if falsyAt (bufChunks buffer) index
                     then buffer\<lparr>bufChunks := setAt (bufChunks buffer) index data,
                                  bufReceived := bufReceived buffer + 1\<rparr>
                     else buffer)
      in if bufReceived buffer' = bufTotal buffer'
         then (chunkBuffers(chunkId := None), Some (joinChunks (bufChunks buffer')))
         else (chunkBuffers(chunkId \<mapsto> buffer'), None))"
| "onMessage chunkBuffers (DataFrame raw) = (chunkBuffers, Some raw)"

text \<open>The listener on a sequence of frames; one result for each frame.\<close>

fun onMessages ::
  "(string \<rightharpoonup> chunkBuffer) \<Rightarrow> frame list \<Rightarrow> (string \<rightharpoonup> chunkBuffer) \<times> string option list"
where
  "onMessages chunkBuffers [] = (chunkBuffers, [])"
| "onMessages chunkBuffers (f # fs) =
     (let step = onMessage chunkBuffers f;
          rest = onMessages (fst step) fs
      in (fst rest, snd step # snd rest))"

definition isChunkOf :: "string \<Rightarrow> frame \<Rightarrow> bool" where
  "isChunkOf chunkId f = (case f of ChunkFrame c i t d \<Rightarrow> c = chunkId | DataFrame raw \<Rightarrow> False)"

section \<open>Negotiation (\<^verbatim>\<open>processScannedOffer\<close>, \<^verbatim>\<open>processAnswerText\<close>)\<close>







text \<open>The toasts of the engine, named by what their text says.\<close>

datatype notice =
    NoticeInvalidConnectionInfo
  | NoticeFragmentRecognized
  | NoticeEnterAnswerCode
  | NoticeAnswerInvalidOrFailed
  | NoticeDisconnected
  | NoticeSendSyncDataFailed
  | NoticeReceiveComplete mergedCount
  | NoticeMergeFailed
  | NoticeSyncComplete "mergedCount option"









section \<open>The sync protocol (\<^verbatim>\<open>handleSyncMessage\<close>, \<^verbatim>\<open>handleSyncRequest\<close>, \<^verbatim>\<open>handleSyncData\<close>)\<close>

text \<open>The messages of the protocol, after \<^verbatim>\<open>JSON.parse\<close>; a message of another type is ignored.\<close>

datatype syncMessage =
    SyncRequest
  | SyncData snapshot
  | SyncAck snapshot
  | OtherMessage

text \<open>
  The engine state that the handlers use: the flag \<^verbatim>\<open>syncInProgress\<close>, the channel with the
  frames sent, the store, and the toasts shown.
\<close>

record engine =
  syncInProgress :: bool
  channel :: sender
  store :: database
  toasts :: "notice list"

text \<open>
  What the handlers take from their surroundings: the transport and the number of its next
  reading, the reading of \<^verbatim>\<open>Date.now()\<close> for a chunk id, \<^verbatim>\<open>JSON.stringify\<close> on a message
  with its timestamp, \<^verbatim>\<open>getAll\<close> of an object store, the parser of dates and the clock of
  the upserts.
\<close>

record surroundings =
  envTransport :: transport
  envReading :: nat
  envNow :: nat
  envStringify :: "syncMessage \<Rightarrow> string"
  envGetAll :: "objstore \<Rightarrow> obj list"
  envDateParse :: "string \<Rightarrow> int option"
  envClock :: "nat \<Rightarrow> clock"

definition isChannelOpen :: "engine \<Rightarrow> bool" where
  "isChannelOpen eng = (currentDataChannel (channel eng) = Some Open)"

text \<open>The snapshot of all local collections that both replies carry.\<close>

definition localSnapshot :: "surroundings \<Rightarrow> database \<Rightarrow> snapshot" where
  "localSnapshot env db =
     \<lparr>msgNotes = Some (envGetAll env (dbNotes db)),
      msgNotebooks = Some (envGetAll env (dbNotebooks db)),
      msgFolders = Some (envGetAll env (dbFolders db))\<rparr>"

definition send :: "surroundings \<Rightarrow> engine \<Rightarrow> syncMessage \<Rightarrow> (sender \<times> (error + bool)) option" where
  "send env eng message =
     sendMessage (envTransport env) (envReading env) (envNow env) (channel eng)
       (envStringify env message) True"

text \<open>
  \<^verbatim>\<open>handleSyncRequest\<close>. With the channel closed it shows a toast and returns. Otherwise it
  sets the flag and sends the local collections; when sending throws, it clears the flag.
  \<open>None\<close> stands for a call that never returns.
\<close>

definition handleSyncRequest :: "surroundings \<Rightarrow> engine \<Rightarrow> engine option" where
  "handleSyncRequest env eng =
     (if \<not> isChannelOpen eng then Some (eng\<lparr>toasts := toasts eng @ [NoticeDisconnected]\<rparr>)
      else
        (let eng1 = eng\<lparr>syncInProgress := True\<rparr>
         in case send env eng1 (SyncData (localSnapshot env (store eng1))) of
              None \<Rightarrow> None
            | Some (ch, Inl e) \<Rightarrow>
                Some (eng1\<lparr>channel := ch, syncInProgress := False,
                            toasts := toasts eng1 @ [NoticeSendSyncDataFailed]\<rparr>)
            | Some (ch, Inr queued) \<Rightarrow> Some (eng1\<lparr>channel := ch\<rparr>)))"

text \<open>
  \<^verbatim>\<open>handleSyncData\<close>. It sets the flag, merges, and with the channel open sends the local
  collections back as \<^verbatim>\<open>sync_ack\<close>; then it clears the flag.
\<close>

definition handleSyncData :: "surroundings \<Rightarrow> snapshot \<Rightarrow> engine \<Rightarrow> engine option" where
  "handleSyncData env message eng =
     (let eng1 = eng\<lparr>syncInProgress := True\<rparr>;
          merged = mergeRemoteData (envDateParse env) (envClock env) message (store eng1);
          eng2 = eng1\<lparr>store := fst merged\<rparr>
      in if isChannelOpen eng2
         then (case send env eng2 (SyncAck (localSnapshot env (store eng2))) of
                 None \<Rightarrow> None
               | Some (ch, Inl e) \<Rightarrow>
                   Some (eng2\<lparr>channel := ch, syncInProgress := False,
                               toasts := toasts eng2 @ [NoticeMergeFailed]\<rparr>)
               | Some (ch, Inr queued) \<Rightarrow>
                   Some (eng2\<lparr>channel := ch, syncInProgress := False,
                               toasts := toasts eng2 @ [NoticeReceiveComplete (snd merged)]\<rparr>))
         else Some (eng2\<lparr>syncInProgress := False\<rparr>))"

text \<open>
  \<^verbatim>\<open>handleSyncMessage\<close>: the dispatch on the type of the message. A \<^verbatim>\<open>sync_ack\<close> that carries
  a collection is merged; then the flag is cleared.
\<close>

definition handleSyncMessage :: "surroundings \<Rightarrow> syncMessage \<Rightarrow> engine \<Rightarrow> engine option" where
  "handleSyncMessage env message eng =
     (case message of
        SyncRequest \<Rightarrow> handleSyncRequest env eng
      | SyncData snap \<Rightarrow> handleSyncData env snap eng
      | SyncAck snap \<Rightarrow>
          (if msgNotes snap \<noteq> None \<or> msgNotebooks snap \<noteq> None \<or> msgFolders snap \<noteq> None
           then (let merged = mergeRemoteData (envDateParse env) (envClock env) snap (store eng)
                 in Some (eng\<lparr>store := fst merged, syncInProgress := False,
                               toasts := toasts eng @ [NoticeSyncComplete (Some (snd merged))]\<rparr>))
           else Some (eng\<lparr>syncInProgress := False,
                           toasts := toasts eng @ [NoticeSyncComplete None]\<rparr>))
      | OtherMessage \<Rightarrow> Some eng)"

section \<open>Notions for the proofs and example data\<close>

text \<open>
  A clock is usable when the timestamp it writes is not dated before
  the epoch. An entity is settled in a store when it has a stored counterpart that is not
  older: a merge then leaves it alone.
\<close>

definition clockOK :: "(string \<Rightarrow> int option) \<Rightarrow> clock \<Rightarrow> bool" where
  "clockOK parse clk =
     (case newDate parse (JStr (isoUpdated clk)) of None \<Rightarrow> True | Some t \<Rightarrow> 0 \<le> t)"

definition settled :: "(string \<Rightarrow> int option) \<Rightarrow> objstore \<Rightarrow> obj \<Rightarrow> bool" where
  "settled parse st e =
     (validKey (getProp e ''id'') \<longrightarrow>
        (case st (getProp e ''id'') of
           None \<Rightarrow> False
         | Some l \<Rightarrow> \<not> dateGreater parse (getProp e ''updatedAt'') (getProp l ''updatedAt'')))"

text \<open>What the merge proofs need of the required fields of an upsert.\<close>

definition reqUpdated :: "(clock \<Rightarrow> obj \<Rightarrow> (string \<times> jsval) list) \<Rightarrow> bool" where
  "reqUpdated req =
     (\<forall>clk e. map_of (rev (req clk e)) ''updatedAt''
        = Some (orElse (getProp e ''updatedAt'') (JStr (isoUpdated clk))))"

text \<open>
  The conditional renaming that \<^verbatim>\<open>compactSignaling\<close> and \<^verbatim>\<open>expandSignaling\<close> are made of:
  when the value under \<open>a\<close> passes the test, it is stored under \<open>b\<close>, after \<open>f\<close>, and \<open>a\<close> is
  deleted.
\<close>

definition condMove :: "(jsval \<Rightarrow> bool) \<Rightarrow> (jsval \<Rightarrow> jsval) \<Rightarrow> string \<Rightarrow> string \<Rightarrow> obj \<Rightarrow> obj" where
  "condMove P f a b r = (if P (getProp r a) then moveProp a b (f (getProp r a)) r else r)"

definition defined :: "jsval \<Rightarrow> bool" where
  "defined v = (v \<noteq> JUndefined)"

text \<open>The keys that the codec knows at each of its two levels, long and short.\<close>

definition definedKeys :: "bool \<Rightarrow> string set" where
  "definedKeys isRoot =
     (if isRoot then {''type'', ''sdp'', ''candidates'', ''t'', ''s'', ''c''}
      else {''candidate'', ''sdpMid'', ''sdpMLineIndex'', ''c'', ''m'', ''i''})"

text \<open>
  The array of a reassembly buffer in which the chunks with an index in \<open>S\<close> have arrived,
  and the data of a frame.
\<close>

definition collectedChunks :: "string \<Rightarrow> nat \<Rightarrow> nat set \<Rightarrow> string option list" where
  "collectedChunks data t S =
     map (\<lambda>i. if i \<in> S then Some (slice data (i * MAX_CHUNK_SIZE) ((i + 1) * MAX_CHUNK_SIZE))
              else None) [0..<t]"

definition bufferOf :: "string \<Rightarrow> nat \<Rightarrow> nat set \<Rightarrow> chunkBuffer" where
  "bufferOf data t S =
     \<lparr>bufChunks = collectedChunks data t S, bufReceived = card S, bufTotal = t\<rparr>"

text \<open>What the listener hands on at the frames of one chunk id, in order of arrival.\<close>

definition deliveriesFor :: "string \<Rightarrow> frame list \<Rightarrow> string option list \<Rightarrow> string option list" where
  "deliveriesFor c fs outs = map snd (filter (\<lambda>p. isChunkOf c (fst p)) (zip fs outs))"




text \<open>
  What the transport does to a send, from the reading \<open>k\<close> on. Every wait ends: after
  any reading there is one at which the buffer holds 64 KiB or less, or at which the
  channel is found not open after the pause. The channel stays open: no pause finds it
  otherwise. The buffer never drains: every reading is above the limit and every pause finds
  the channel open.
\<close>

definition everyWaitEnds :: "transport \<Rightarrow> nat \<Rightarrow> bool" where
  "everyWaitEnds tr k =
     (\<forall>k' \<ge> k. \<exists>j \<ge> k'. bufferedAmount tr j \<le> 65536 \<or> stateAfterPause tr j \<noteq> Open)"

definition staysOpen :: "transport \<Rightarrow> nat \<Rightarrow> bool" where
  "staysOpen tr k = (\<forall>j \<ge> k. 65536 < bufferedAmount tr j \<longrightarrow> stateAfterPause tr j = Open)"

definition neverDrains :: "transport \<Rightarrow> nat \<Rightarrow> bool" where
  "neverDrains tr k = (\<forall>j \<ge> k. 65536 < bufferedAmount tr j \<and> stateAfterPause tr j = Open)"

text \<open>
  The frames of a whole message: one frame, or the envelopes in order under the chunk id of
  the clock reading. The chunk id of a frame.
\<close>

definition framesOf :: "nat \<Rightarrow> string \<Rightarrow> frame list" where
  "framesOf now data =
     (if MAX_CHUNK_SIZE < length data
      then map (envelope (toString36 now) (totalChunksOf data) data) [0..<totalChunksOf data]
      else [DataFrame data])"


text \<open>
  The text of the \<^verbatim>\<open>sync_data\<close> that answers a request, the store and the counts after the
  merge of a received snapshot, and the text of the \<^verbatim>\<open>sync_ack\<close> that follows it.
\<close>

abbreviation requestText :: "surroundings \<Rightarrow> engine \<Rightarrow> string" where
  "requestText env eng \<equiv> envStringify env (SyncData (localSnapshot env (store eng)))"

abbreviation mergedStore :: "surroundings \<Rightarrow> snapshot \<Rightarrow> engine \<Rightarrow> database" where
  "mergedStore env message eng \<equiv>
     fst (mergeRemoteData (envDateParse env) (envClock env) message (store eng))"

abbreviation mergedCounts :: "surroundings \<Rightarrow> snapshot \<Rightarrow> engine \<Rightarrow> mergedCount" where
  "mergedCounts env message eng \<equiv>
     snd (mergeRemoteData (envDateParse env) (envClock env) message (store eng))"

abbreviation ackText :: "surroundings \<Rightarrow> snapshot \<Rightarrow> engine \<Rightarrow> string" where
  "ackText env message eng \<equiv>
     envStringify env (SyncAck (localSnapshot env (mergedStore env message eng)))"

text \<open>Example data: a date parser that knows four timestamps, a clock, entities, a store.\<close>

definition sampleParse :: "string \<Rightarrow> int option" where
  "sampleParse s =
     (if s = ''2026-01-01T00:00:00Z'' then Some 1767225600000
      else if s = ''2026-01-15T00:00:00Z'' then Some 1768435200000
      else if s = ''2026-02-01T00:00:00Z'' then Some 1769904000000
      else if s = ''2026-03-01T00:00:00.000Z'' then Some 1772323200000
      else None)"

definition sampleClock :: clock where
  "sampleClock = \<lparr>dateNow = 1772323200000, isoCreated = ''2026-03-01T00:00:00.000Z'',
     isoUpdated = ''2026-03-01T00:00:00.000Z''\<rparr>"

definition sampleFolderF1 :: obj where
  "sampleFolderF1 = [(''id'', JStr ''F1''), (''updatedAt'', JStr ''2026-01-01T00:00:00Z'')]"

definition sampleLocalN1 :: obj where
  "sampleLocalN1 = [(''id'', JStr ''N1''), (''title'', JStr ''draft''), (''pinned'', JBool True),
     (''updatedAt'', JStr ''2026-01-15T00:00:00Z'')]"

definition sampleRemoteN1 :: obj where
  "sampleRemoteN1 = [(''id'', JStr ''N1''), (''title'', JStr ''final''),
     (''updatedAt'', JStr ''2026-02-01T00:00:00Z'')]"


definition sampleDb :: database where
  "sampleDb = \<lparr>dbFolders = Map.empty, dbNotebooks = Map.empty,
     dbNotes = [JStr ''N1'' \<mapsto> sampleLocalN1]\<rparr>"

definition sampleSnapshot :: snapshot where
  "sampleSnapshot = \<lparr>msgNotes = Some [sampleRemoteN1], msgNotebooks = None,
     msgFolders = Some [sampleFolderF1]\<rparr>"

definition sampleCandidate :: jsval where
  "sampleCandidate = JObj [(''candidate'', JStr ''candidate:1 1 udp 2122260223 192.0.2.1 54321 typ host''),
     (''sdpMid'', JStr ''0''), (''sdpMLineIndex'', JNum 0), (''usernameFragment'', JStr ''a1b2'')]"

definition sampleOffer :: jsval where
  "sampleOffer = JObj [(''type'', JStr ''offer''), (''sdp'', JStr ''v=0''),
     (''candidates'', JArr [sampleCandidate])]"

text \<open>A message of 40 KiB, a chunk id, a transport that never fills up, an idle sender.\<close>

definition sampleMessage :: string where
  "sampleMessage = replicate 40960 CHR ''x''"

definition sampleChunkId :: string where
  "sampleChunkId = ''mm7e2k00''"

definition freeTransport :: transport where
  "freeTransport = \<lparr>bufferedAmount = (\<lambda>k. 0), stateAfterPause = (\<lambda>k. Open)\<rparr>"

definition openSender :: sender where
  "openSender = \<lparr>currentDataChannel = Some Open, sent = [], sendQueue = []\<rparr>"



definition closingTransport :: transport where
  "closingTransport = \<lparr>bufferedAmount = (\<lambda>k. if k = 1 then 70000 else 0),
     stateAfterPause = (\<lambda>k. Closed)\<rparr>"


text \<open>
  Surroundings for the handlers. The store lists what it holds under the ids of the
  example, and a message is written with all fields of its entities, values as
  \<^verbatim>\<open>String\<close> gives them. An engine in the middle of a sync, with the channel open and with
  the channel closed. Surroundings in which every message is long, by trailing blanks, and
  the channel closes during the first pause. The texts of the two replies of the example.
\<close>

definition sampleGetAll :: "objstore \<Rightarrow> obj list" where
  "sampleGetAll st =
     concat (map (\<lambda>k. case st k of None \<Rightarrow> [] | Some ob \<Rightarrow> [ob]) [JStr ''F1'', JStr ''N1''])"

definition sampleWriteEntity :: "obj \<Rightarrow> string" where
  "sampleWriteEntity e =
     ''{'' @ joinWith '','' (map (\<lambda>(k, v). k @ '':'' @ toStringJS v) e) @ ''}''"

definition sampleWriteList :: "obj list \<Rightarrow> string" where
  "sampleWriteList es = ''['' @ joinWith '','' (map sampleWriteEntity es) @ '']''"

definition sampleWriteSnapshot :: "string \<Rightarrow> snapshot \<Rightarrow> string" where
  "sampleWriteSnapshot ty s =
     ''{type:'' @ ty @ '',notes:'' @ sampleWriteList (collection (msgNotes s))
       @ '',notebooks:'' @ sampleWriteList (collection (msgNotebooks s))
       @ '',folders:'' @ sampleWriteList (collection (msgFolders s)) @ ''}''"

definition sampleWrite :: "syncMessage \<Rightarrow> string" where
  "sampleWrite m =
     (case m of
        SyncRequest \<Rightarrow> ''{type:sync_request}''
      | SyncData s \<Rightarrow> sampleWriteSnapshot ''sync_data'' s
      | SyncAck s \<Rightarrow> sampleWriteSnapshot ''sync_ack'' s
      | OtherMessage \<Rightarrow> ''{}'')"

definition sampleSurroundings :: surroundings where
  "sampleSurroundings =
     \<lparr>envTransport = freeTransport, envReading = 0, envNow = 1772323200000,
      envStringify = sampleWrite, envGetAll = sampleGetAll, envDateParse = sampleParse,
      envClock = (\<lambda>i. sampleClock)\<rparr>"

definition busyEngine :: engine where
  "busyEngine = \<lparr>syncInProgress = True, channel = openSender, store = sampleDb, toasts = []\<rparr>"

definition closedEngine :: engine where
  "closedEngine = busyEngine\<lparr>channel := openSender\<lparr>currentDataChannel := Some Closed\<rparr>\<rparr>"

definition closingSurroundings :: surroundings where
  "closingSurroundings = sampleSurroundings
     \<lparr>envTransport := closingTransport,
      envStringify := (\<lambda>m. sampleWrite m @ replicate 40000 CHR '' '')\<rparr>"

definition sampleRequestText :: string where
  "sampleRequestText =
     ''{type:sync_data,notes:[{id:N1,title:draft,pinned:true,updatedAt:2026-01-15T00:00:00Z}],notebooks:[],folders:[]}''"

definition sampleAckText :: string where
  "sampleAckText =
     ''{type:sync_ack,notes:[{id:N1,title:final,pinned:true,updatedAt:2026-02-01T00:00:00Z}],notebooks:[],folders:[{id:F1,name:''
     @ defaultFolderName
     @ '',parentId:null,order:1772323200000,createdAt:2026-03-01T00:00:00.000Z,updatedAt:2026-01-01T00:00:00Z}]}''"





section \<open>Properties of the model\<close>

subsection \<open>Objects and upserts\<close>

lemma map_of_setProp: "map_of (setProp k v ob) = (map_of ob)(k \<mapsto> v)"
  by (simp add: setProp_def update_conv')

lemma map_of_assign: "map_of (assign acc ps) = map_of acc ++ map_of (rev ps)"
proof (induction ps arbitrary: acc)
  case Nil
  show ?case by (simp add: assign_def)
next
  case (Cons p ps)
  obtain k v where p: "p = (k, v)" by (cases p)
  have "assign acc (p # ps) = assign (setProp k v acc) ps"
    by (simp add: assign_def p)
  then show ?case
    using Cons.IH [of "setProp k v acc"]
    by (simp add: p map_of_setProp map_add_def fun_eq_iff split: option.splits)
qed

lemma map_of_rev_distinct: "distinct (map fst ps) \<Longrightarrow> map_of (rev ps) = map_of ps"
  by (simp add: map_of_inject_set distinct_rev rev_map [symmetric] del: rev_map)


lemma validKey_defined: "validKey v \<Longrightarrow> v \<noteq> JUndefined"
  by (cases v) auto

lemma getProp_valid: "validKey (getProp e k) \<Longrightarrow> map_of e k = Some (getProp e k)"
  by (auto simp: getProp_def split: option.splits)

lemma getProp_assign:
  "getProp (assign acc ps) k = (case map_of (rev ps) k of None \<Rightarrow> getProp acc k | Some v \<Rightarrow> v)"
  by (simp add: getProp_def map_of_assign map_add_def split: option.splits)

lemma getProp_assign_present:
  "distinct (map fst ps) \<Longrightarrow> map_of ps k = Some v \<Longrightarrow> getProp (assign acc ps) k = v"
  by (simp add: getProp_assign map_of_rev_distinct)

lemma getProp_assign_absent:
  "map_of ps k = None \<Longrightarrow> getProp (assign acc ps) k = getProp acc k"
proof -
  assume "map_of ps k = None"
  then have "k \<notin> fst ` set ps" by (simp add: map_of_eq_None_iff)
  then have "map_of (rev ps) k = None" by (simp add: map_of_eq_None_iff)
  then show ?thesis by (simp add: getProp_assign)
qed

lemma getProp_upserted_id:
  assumes "distinct (map fst e)" "validKey (getProp e ''id'')"
  shows "getProp (upserted req clk local e) ''id'' = getProp e ''id''"
proof -
  have m: "map_of e ''id'' = Some (getProp e ''id'')"
    by (rule getProp_valid [OF assms(2)])
  show ?thesis
  proof (cases local)
    case None
    then show ?thesis
      by (simp add: upserted_def getProp_assign_present [OF assms(1) m])
  next
    case (Some ex)
    then show ?thesis
      by (simp add: upserted_def getProp_assign_absent getProp_assign_present [OF assms(1) m])
  qed
qed

lemma upsertWith_upserted:
  "upsertWith req clk st e =
     (case dbGet st (getProp e ''id'') of
        Inl err \<Rightarrow> Inl err
      | Inr local \<Rightarrow> dbUpdate st (upserted req clk local e))"
  by (simp add: upsertWith_def upserted_def split: sum.splits option.splits)

lemma upsertWith_eq:
  assumes "distinct (map fst e)" "validKey (getProp e ''id'')"
  shows "upsertWith req clk st e
           = Inr (st(getProp e ''id'' \<mapsto> upserted req clk (st (getProp e ''id'')) e))"
  by (simp add: upsertWith_upserted dbGet_def dbUpdate_def assms getProp_upserted_id [OF assms])

lemma mergeEntity_eq:
  assumes "distinct (map fst e)"
  shows "mergeEntity (upsertWith req) parse clk e (st, n) =
     (if validKey (getProp e ''id'') \<and>
         (case st (getProp e ''id'') of None \<Rightarrow> True
          | Some l \<Rightarrow> dateGreater parse (getProp e ''updatedAt'') (getProp l ''updatedAt''))
      then (st(getProp e ''id'' \<mapsto> upserted req clk (st (getProp e ''id'')) e), n + 1)
      else (st, n))"
proof (cases "validKey (getProp e ''id'')")
  case False
  then show ?thesis by (simp add: mergeEntity_def dbGet_def)
next
  case True
  show ?thesis
    using True upsertWith_eq [OF assms True, of req clk st]
    by (auto simp: mergeEntity_def dbGet_def split: option.splits)
qed


lemma reqUpdated_folder: "reqUpdated folderFields"
  by (simp add: reqUpdated_def folderFields_def)

lemma reqUpdated_notebook: "reqUpdated notebookFields"
  by (simp add: reqUpdated_def notebookFields_def)

lemma reqUpdated_note: "reqUpdated noteFields"
  by (simp add: reqUpdated_def noteFields_def)

lemma newDate_falsy: "\<not> truthy v \<Longrightarrow> newDate parse v = Some t \<Longrightarrow> t = 0"
  by (cases v) (auto simp: newDate_def split: if_splits)

lemma dateGreater_irrefl: "\<not> dateGreater parse a a"
  by (simp add: dateGreater_def split: option.splits)

lemma dateGreater_undefined: "\<not> dateGreater parse JUndefined b"
  by (simp add: dateGreater_def newDate_def)

lemma getProp_upserted_updatedAt_None:
  assumes "distinct (map fst e)" "reqUpdated req"
  shows "getProp (upserted req clk None e) ''updatedAt'' =
     (case map_of e ''updatedAt'' of None \<Rightarrow> JStr (isoUpdated clk) | Some v \<Rightarrow> v)"
proof (cases "map_of e ''updatedAt''")
  case None
  have u: "getProp e ''updatedAt'' = JUndefined" using None by (simp add: getProp_def)
  have "getProp (upserted req clk None e) ''updatedAt''
      = getProp (assign [] (req clk e)) ''updatedAt''"
    by (simp add: upserted_def getProp_assign_absent [OF None])
  also have "\<dots> = orElse JUndefined (JStr (isoUpdated clk))"
    using assms(2) by (simp add: getProp_assign reqUpdated_def u)
  finally show ?thesis using None by (simp add: orElse_def)
next
  case (Some v)
  show ?thesis
    using Some by (simp add: upserted_def getProp_assign_present [OF assms(1) Some])
qed

lemma getProp_upserted_updatedAt_Some:
  "getProp (upserted req clk (Some ex) e) ''updatedAt'' =
     orElse (getProp e ''updatedAt'') (JStr (isoUpdated clk))"
  by (simp add: upserted_def getProp_assign)

subsection \<open>One turn of the merge loop, and the loop\<close>

lemma not_greater_after_update:
  assumes g: "dateGreater parse (getProp e ''updatedAt'') (getProp l ''updatedAt'')"
    and ok: "clockOK parse clk"
    and r: "\<not> dateGreater parse a (getProp l ''updatedAt'')"
  shows "\<not> dateGreater parse a (orElse (getProp e ''updatedAt'') (JStr (isoUpdated clk)))"
proof (cases "truthy (getProp e ''updatedAt'')")
  case True
  then show ?thesis
    using g r by (auto simp: orElse_def dateGreater_def split: option.splits)
next
  case False
  obtain x y where x: "newDate parse (getProp e ''updatedAt'') = Some x"
    and y: "newDate parse (getProp l ''updatedAt'') = Some y" and xy: "y < x"
    using g by (auto simp: dateGreater_def split: option.splits)
  have x0: "x = 0" by (rule newDate_falsy [OF False x])
  show ?thesis
    using False ok r x0 xy y
    by (auto simp: orElse_def dateGreater_def clockOK_def split: option.splits)
qed

lemma settled_step:
  assumes d: "distinct (map fst e)" and rq: "reqUpdated req" and ok: "clockOK parse clk"
  shows "settled parse (fst (mergeEntity (upsertWith req) parse clk e (st, n))) e"
proof (cases "validKey (getProp e ''id'')")
  case False
  then show ?thesis by (simp add: settled_def)
next
  case v: True
  show ?thesis
  proof (cases "st (getProp e ''id'')")
    case None
    have "\<not> dateGreater parse (getProp e ''updatedAt'')
             (case map_of e ''updatedAt'' of None \<Rightarrow> JStr (isoUpdated clk) | Some v \<Rightarrow> v)"
      by (cases "map_of e ''updatedAt''")
         (simp_all add: getProp_def dateGreater_undefined dateGreater_irrefl)
    then show ?thesis
      using v None
      by (simp add: mergeEntity_eq [OF d] settled_def getProp_upserted_updatedAt_None [OF d rq])
  next
    case (Some l)
    show ?thesis
    proof (cases "dateGreater parse (getProp e ''updatedAt'') (getProp l ''updatedAt'')")
      case True
      have "\<not> dateGreater parse (getProp e ''updatedAt'')
               (orElse (getProp e ''updatedAt'') (JStr (isoUpdated clk)))"
      proof (cases "truthy (getProp e ''updatedAt'')")
        case t: True
        then show ?thesis by (simp add: orElse_def dateGreater_irrefl)
      next
        case f: False
        obtain x where x: "newDate parse (getProp e ''updatedAt'') = Some x"
          using True by (auto simp: dateGreater_def split: option.splits)
        have "x = 0" by (rule newDate_falsy [OF f x])
        then show ?thesis
          using f ok x by (auto simp: orElse_def dateGreater_def clockOK_def split: option.splits)
      qed
      then show ?thesis
        using v Some True
        by (simp add: mergeEntity_eq [OF d] settled_def getProp_upserted_updatedAt_Some)
    next
      case False
      then show ?thesis
        using v Some by (simp add: mergeEntity_eq [OF d] settled_def)
    qed
  qed
qed

lemma settled_preserved:
  assumes d: "distinct (map fst e)" and ok: "clockOK parse clk"
    and s: "settled parse st r"
  shows "settled parse (fst (mergeEntity (upsertWith req) parse clk e (st, n))) r"
proof (cases "validKey (getProp r ''id'')")
  case False
  then show ?thesis by (simp add: settled_def)
next
  case v: True
  then obtain l where l: "st (getProp r ''id'') = Some l"
    and nl: "\<not> dateGreater parse (getProp r ''updatedAt'') (getProp l ''updatedAt'')"
    using s by (auto simp: settled_def split: option.splits)
  show ?thesis
  proof (cases "getProp e ''id'' = getProp r ''id''")
    case False
    then show ?thesis
      using s by (auto simp: mergeEntity_eq [OF d] settled_def)
  next
    case same: True
    show ?thesis
    proof (cases "dateGreater parse (getProp e ''updatedAt'') (getProp l ''updatedAt'')")
      case True
      from not_greater_after_update [OF True ok nl]
      show ?thesis
        using v l same True
        by (simp add: mergeEntity_eq [OF d] settled_def getProp_upserted_updatedAt_Some)
    next
      case False
      then show ?thesis
        using v l same nl by (simp add: mergeEntity_eq [OF d] settled_def)
    qed
  qed
qed

lemma mergeEntity_settled_id:
  assumes d: "distinct (map fst e)" and s: "settled parse st e"
  shows "mergeEntity (upsertWith req) parse clk e (st, n) = (st, n)"
  using s by (auto simp: mergeEntity_eq [OF d] settled_def split: option.splits)

lemma mergeLoop_settled:
  assumes "\<forall>e \<in> set es. distinct (map fst e)" "\<forall>i. clockOK parse (clk i)" "reqUpdated req"
  shows "\<forall>r. r \<in> set es \<or> settled parse st r
       \<longrightarrow> settled parse (fst (mergeLoop (upsertWith req) parse clk i es (st, n))) r"
  using assms(1)
proof (induction es arbitrary: st n i)
  case Nil
  then show ?case by simp
next
  case (Cons e es)
  obtain st' n' where step: "mergeEntity (upsertWith req) parse (clk i) e (st, n) = (st', n')"
    by (cases "mergeEntity (upsertWith req) parse (clk i) e (st, n)")
  have d: "distinct (map fst e)" using Cons.prems by simp
  have ok: "clockOK parse (clk i)" using assms(2) by simp
  have a: "settled parse st' e"
    using settled_step [OF d assms(3) ok, where st = st and n = n] by (simp add: step)
  have b: "\<And>r. settled parse st r \<Longrightarrow> settled parse st' r"
    using settled_preserved [OF d ok, where st = st and req = req and n = n] by (simp add: step)
  have ih: "\<forall>r. r \<in> set es \<or> settled parse st' r
       \<longrightarrow> settled parse (fst (mergeLoop (upsertWith req) parse clk (Suc i) es (st', n'))) r"
    using Cons.IH [where st = st' and n = n' and i = "Suc i"] Cons.prems by simp
  show ?case
    using a b ih by (auto simp: step)
qed

lemma mergeLoop_all_settled:
  assumes "\<forall>e \<in> set es. distinct (map fst e)" "\<forall>e \<in> set es. settled parse st e"
  shows "mergeLoop (upsertWith req) parse clk i es (st, n) = (st, n)"
  using assms
  by (induction es arbitrary: i) (simp_all add: mergeEntity_settled_id)

lemma mergeLoop_idem:
  assumes "\<forall>e \<in> set es. distinct (map fst e)" "\<forall>i. clockOK parse (clk i)" "reqUpdated req"
  shows "mergeLoop (upsertWith req) parse clk' j es
           (fst (mergeLoop (upsertWith req) parse clk i es (st, n)), 0)
         = (fst (mergeLoop (upsertWith req) parse clk i es (st, n)), 0)"
  using mergeLoop_settled [OF assms, where st = st and i = i and n = n] assms(1)
  by (intro mergeLoop_all_settled) auto








lemmas merge_eval = mergeRemoteData_def mergeEntity_def collection_def upsertFolder_def
  upsertNotebook_def upsertNote_def upsertWith_upserted upserted_def dbGet_def dbUpdate_def
  getProp_def assign_def setProp_def dateGreater_def newDate_def orElse_def nullish_def
  folderFields_def notebookFields_def noteFields_def

lemma clockOK_sample: "clockOK sampleParse sampleClock"
  by (simp add: clockOK_def newDate_def sampleParse_def sampleClock_def)

subsection \<open>The merge rule\<close>

















subsection \<open>Merging twice\<close>

text \<open>
  Claim C4. For every store and every snapshot of well-formed objects, merging the snapshot
  a second time changes nothing and counts nothing, whatever the clock reads the second
  time, provided the clock of the first merge does not write timestamps before the epoch.
\<close>

theorem mergeRemoteData_idempotent:
  assumes wf: "\<forall>e \<in> set (collection (msgFolders m)) \<union> set (collection (msgNotebooks m))
                  \<union> set (collection (msgNotes m)). distinct (map fst e)"
    and ok: "\<forall>i. clockOK parse (clk i)"
  shows "mergeRemoteData parse clk' m (fst (mergeRemoteData parse clk m db))
       = (fst (mergeRemoteData parse clk m db),
          \<lparr>cntNotes = 0, cntNotebooks = 0, cntFolders = 0\<rparr>)"
proof -
  have f: "\<forall>e \<in> set (collection (msgFolders m)). distinct (map fst e)"
    and nb: "\<forall>e \<in> set (collection (msgNotebooks m)). distinct (map fst e)"
    and n: "\<forall>e \<in> set (collection (msgNotes m)). distinct (map fst e)"
    using wf by auto
  show ?thesis
    unfolding mergeRemoteData_def Let_def upsertFolder_def upsertNotebook_def upsertNote_def
    by (simp add: mergeLoop_idem [OF f ok reqUpdated_folder]
        mergeLoop_idem [OF nb ok reqUpdated_notebook] mergeLoop_idem [OF n ok reqUpdated_note])
qed


theorem mergeRemoteData_idempotent_witness:
  "clockOK sampleParse sampleClock
   \<and> snd (mergeRemoteData sampleParse (\<lambda>i. sampleClock) sampleSnapshot sampleDb)
       = \<lparr>cntNotes = 1, cntNotebooks = 0, cntFolders = 1\<rparr>
   \<and> mergeRemoteData sampleParse (\<lambda>i. sampleClock) sampleSnapshot
         (fst (mergeRemoteData sampleParse (\<lambda>i. sampleClock) sampleSnapshot sampleDb))
       = (fst (mergeRemoteData sampleParse (\<lambda>i. sampleClock) sampleSnapshot sampleDb),
          \<lparr>cntNotes = 0, cntNotebooks = 0, cntFolders = 0\<rparr>)"
proof -
  have wf: "\<forall>e \<in> set (collection (msgFolders sampleSnapshot))
        \<union> set (collection (msgNotebooks sampleSnapshot))
        \<union> set (collection (msgNotes sampleSnapshot)). distinct (map fst e)"
    by (simp add: sampleSnapshot_def collection_def sampleFolderF1_def sampleRemoteN1_def)
  have ok: "\<forall>i. clockOK sampleParse ((\<lambda>i. sampleClock) i)"
    by (simp add: clockOK_sample)
  have first: "snd (mergeRemoteData sampleParse (\<lambda>i. sampleClock) sampleSnapshot sampleDb)
       = \<lparr>cntNotes = 1, cntNotebooks = 0, cntFolders = 1\<rparr>"
    by (simp add: merge_eval sampleParse_def sampleClock_def sampleSnapshot_def sampleDb_def
      sampleRemoteN1_def sampleLocalN1_def sampleFolderF1_def)
  show ?thesis
    using first clockOK_sample
      mergeRemoteData_idempotent [OF wf ok, where clk' = "\<lambda>i. sampleClock" and db = sampleDb]
    by simp
qed

subsection \<open>Remote entities without a valid date\<close>



subsection \<open>The signaling codec\<close>

lemma assign_append:
  "distinct (map fst ps) \<Longrightarrow> fst ` set ps \<inter> fst ` set acc = {} \<Longrightarrow> assign acc ps = acc @ ps"
proof (induction ps arbitrary: acc)
  case Nil
  show ?case by (simp add: assign_def)
next
  case (Cons p ps)
  obtain k v where p: "p = (k, v)" by (cases p)
  have k: "k \<notin> fst ` set acc" using Cons.prems(2) by (auto simp: p)
  have u: "setProp k v acc = acc @ [(k, v)]"
    using k unfolding setProp_def by (induction acc) auto
  have a: "assign acc ((k, v) # ps) = assign (acc @ [(k, v)]) ps"
    by (simp add: assign_def u)
  have "assign (acc @ [(k, v)]) ps = (acc @ [(k, v)]) @ ps"
    using Cons.prems by (intro Cons.IH) (auto simp: p)
  then show ?case by (simp add: a p)
qed

lemma assign_Nil: "distinct (map fst ps) \<Longrightarrow> assign [] ps = ps"
  using assign_append [of ps "[]"] by simp

lemma map_of_moveProp: "map_of (moveProp a b v r) = ((map_of r)(b \<mapsto> v))(a := None)"
  by (simp add: moveProp_def setProp_def deleteProp_def delete_conv' update_conv')

lemma distinct_moveProp: "distinct (map fst r) \<Longrightarrow> distinct (map fst (moveProp a b v r))"
  by (simp add: moveProp_def setProp_def deleteProp_def distinct_update distinct_delete)

lemma getProp_map: "getProp r k = (case map_of r k of None \<Rightarrow> JUndefined | Some v \<Rightarrow> v)"
  by (simp add: getProp_def)

lemma absent_key: "k \<notin> fst ` set ps \<Longrightarrow> map_of ps k = None"
  by (simp add: map_of_eq_None_iff)

lemma deepEq_refl: "deepEq v v"
proof (induction v)
  case (JArr xs)
  then show ?case by (simp add: list_all2_same)
next
  case (JObj ps)
  have "deepEq (getProp ps k) (getProp ps k)" if k: "k \<in> fst ` set ps" for k
  proof -
    have "getProp ps k \<in> snd ` set ps" by (rule getProp_key_vals [OF k])
    then obtain p where p: "p \<in> set ps" "getProp ps k = snd p" by auto
    show ?thesis using JObj [OF p(1), of "snd p"] p(2) by (cases p) simp
  qed
  then show ?case by simp
qed simp_all

lemma deepEq_objI:
  assumes "\<And>k. rel_option deepEq (map_of qs k) (map_of ps k)"
  shows "deepEq (JObj qs) (JObj ps)"
proof -
  have keys: "fst ` set qs = fst ` set ps"
  proof (rule set_eqI)
    fix k
    show "k \<in> fst ` set qs \<longleftrightarrow> k \<in> fst ` set ps"
      using assms [of k] map_of_eq_None_iff [of qs k] map_of_eq_None_iff [of ps k]
      by (cases "map_of qs k"; cases "map_of ps k") simp_all
  qed
  have "deepEq (getProp qs k) (getProp ps k)" for k
    using assms [of k] by (cases "map_of qs k"; cases "map_of ps k") (simp_all add: getProp_def)
  then show ?thesis using keys by simp
qed

lemma truthy_compact: "truthy (compactSignaling v False) = truthy v"
  by (cases v) (simp_all add: Let_def)

lemma compact_candidate:
  "compactSignaling (JObj ps) False =
     JObj (condMove defined id ''sdpMLineIndex'' ''i''
            (condMove truthy id ''sdpMid'' ''m''
              (condMove truthy id ''candidate'' ''c'' (assign [] ps))))"
  by (simp add: Let_def condMove_def defined_def)

lemma expand_candidate:
  "expandSignaling (JObj ps) False =
     JObj (condMove defined id ''i'' ''sdpMLineIndex''
            (condMove truthy id ''m'' ''sdpMid''
              (condMove truthy id ''c'' ''candidate'' (assign [] ps))))"
  by (simp add: Let_def condMove_def defined_def)

lemma compact_root:
  "compactSignaling (JObj ps) True =
     JObj (condMove truthy (\<lambda>v. compactSignaling v False) ''candidates'' ''c''
            (condMove truthy id ''sdp'' ''s''
              (condMove truthy id ''type'' ''t'' (assign [] ps))))"
  by (simp add: Let_def condMove_def)

lemma expand_root:
  "expandSignaling (JObj ps) True =
     JObj (condMove truthy (\<lambda>v. expandSignaling v False) ''c'' ''candidates''
            (condMove truthy id ''s'' ''sdp''
              (condMove truthy id ''t'' ''type'' (assign [] ps))))"
  by (simp add: Let_def condMove_def)

lemma distinct_condMove: "distinct (map fst r) \<Longrightarrow> distinct (map fst (condMove P f a b r))"
  by (simp add: condMove_def distinct_moveProp)

lemma map_of_condMove:
  "map_of (condMove P f a b r) k =
     (if P (getProp r a)
      then (if k = a then None else if k = b then Some (f (getProp r a)) else map_of r k)
      else map_of r k)"
  by (simp add: condMove_def map_of_moveProp)

lemma getProp_condMove:
  "getProp (condMove P f a b r) k =
     (if P (getProp r a)
      then (if k = a then JUndefined else if k = b then f (getProp r a) else getProp r k)
      else getProp r k)"
  by (simp add: getProp_def map_of_condMove)


lemma getProp_absent: "k \<notin> fst ` set ps \<Longrightarrow> getProp ps k = JUndefined"
  by (simp add: getProp_def absent_key)

lemma truthy_present: "truthy (getProp ps a) \<Longrightarrow> map_of ps a = Some (getProp ps a)"
  by (cases "map_of ps a") (simp_all add: getProp_def)

lemma defined_present: "defined (getProp ps a) \<Longrightarrow> map_of ps a = Some (getProp ps a)"
  by (cases "map_of ps a") (simp_all add: getProp_def defined_def)

lemma roundtrip_candidate:
  assumes wf: "wfSignaling (JObj ps) False"
  shows "\<exists>qs. expandSignaling (compactSignaling (JObj ps) False) False = JObj qs
           \<and> map_of qs = map_of ps"
proof -
  have d: "distinct (map fst ps)" using wf by simp
  have c: "map_of ps ''c'' = None" and m: "map_of ps ''m'' = None" and i: "map_of ps ''i'' = None"
    using wf by (simp_all add: absent_key)
  have gc: "getProp ps ''c'' = JUndefined" and gm: "getProp ps ''m'' = JUndefined"
    and gi: "getProp ps ''i'' = JUndefined"
    using wf by (simp_all add: getProp_absent)
  let ?r = "condMove defined id ''sdpMLineIndex'' ''i''
            (condMove truthy id ''sdpMid'' ''m''
              (condMove truthy id ''candidate'' ''c'' ps))"
  let ?q = "condMove defined id ''i'' ''sdpMLineIndex''
            (condMove truthy id ''m'' ''sdpMid''
              (condMove truthy id ''c'' ''candidate'' ?r))"
  have dr: "distinct (map fst ?r)" by (intro distinct_condMove d)
  have e: "expandSignaling (compactSignaling (JObj ps) False) False = JObj ?q"
    by (simp only: compact_candidate expand_candidate assign_Nil [OF d] assign_Nil [OF dr])
  have "map_of ?q k = map_of ps k" for k
    using c m i gc gm gi truthy_present [of ps "''candidate''"] truthy_present [of ps "''sdpMid''"]
      defined_present [of ps "''sdpMLineIndex''"]
    by (simp add: map_of_condMove getProp_condMove defined_def)
  then have "map_of ?q = map_of ps" by (rule ext)
  then show ?thesis using e by blast
qed


lemma rel_option_deepEq_refl: "rel_option deepEq x x"
  by (cases x) (simp_all add: deepEq_refl)

lemma roundtrip_root:
  assumes wf: "wfSignaling (JObj ps) True"
    and ih: "truthy (getProp ps ''candidates'') \<Longrightarrow>
       deepEq (expandSignaling (compactSignaling (getProp ps ''candidates'') False) False)
         (getProp ps ''candidates'')"
  shows "deepEq (expandSignaling (compactSignaling (JObj ps) True) True) (JObj ps)"
proof -
  have d: "distinct (map fst ps)" using wf by simp
  have t: "map_of ps ''t'' = None" and s: "map_of ps ''s'' = None" and c: "map_of ps ''c'' = None"
    using wf by (simp_all add: absent_key)
  have gt: "getProp ps ''t'' = JUndefined" and gs: "getProp ps ''s'' = JUndefined"
    and gc: "getProp ps ''c'' = JUndefined"
    using wf by (simp_all add: getProp_absent)
  let ?v = "getProp ps ''candidates''"
  let ?r = "condMove truthy (\<lambda>v. compactSignaling v False) ''candidates'' ''c''
            (condMove truthy id ''sdp'' ''s''
              (condMove truthy id ''type'' ''t'' ps))"
  let ?q = "condMove truthy (\<lambda>v. expandSignaling v False) ''c'' ''candidates''
            (condMove truthy id ''s'' ''sdp''
              (condMove truthy id ''t'' ''type'' ?r))"
  have dr: "distinct (map fst ?r)" by (intro distinct_condMove d)
  have e: "expandSignaling (compactSignaling (JObj ps) True) True = JObj ?q"
    by (simp only: compact_root expand_root assign_Nil [OF d] assign_Nil [OF dr])
  have other: "map_of ?q k = map_of ps k" if "k \<noteq> ''candidates'' \<or> \<not> truthy ?v" for k
    using that t s c gt gs gc truthy_present [of ps "''type''"] truthy_present [of ps "''sdp''"]
    by (auto simp: map_of_condMove getProp_condMove truthy_compact)
  have cand: "map_of ?q ''candidates''
        = Some (expandSignaling (compactSignaling ?v False) False)" if "truthy ?v"
    using that gt gs gc
    by (simp add: map_of_condMove getProp_condMove truthy_compact)
  have "rel_option deepEq (map_of ?q k) (map_of ps k)" for k
  proof (cases "k = ''candidates'' \<and> truthy ?v")
    case True
    then show ?thesis
      using cand ih truthy_present [of ps "''candidates''"] by simp
  next
    case False
    then have "map_of ?q k = map_of ps k" by (intro other) blast
    then show ?thesis by (simp add: rel_option_deepEq_refl)
  qed
  then have "deepEq (JObj ?q) (JObj ps)" by (rule deepEq_objI)
  then show ?thesis by (simp only: e)
qed

lemma wf_candidates:
  assumes "wfSignaling (JObj ps) True" "truthy (getProp ps ''candidates'')"
  shows "wfSignaling (getProp ps ''candidates'') False"
proof -
  have "map_of ps ''candidates'' = Some (getProp ps ''candidates'')"
    by (rule truthy_present [OF assms(2)])
  then have "(''candidates'', getProp ps ''candidates'') \<in> set ps" by (rule map_of_SomeD)
  then show ?thesis using assms(1) by auto
qed

lemma roundtrip: "wfSignaling v r \<Longrightarrow> deepEq (expandSignaling (compactSignaling v r) r) v"
proof (induction v r rule: compactSignaling.induct)
  case (1 xs isRoot)
  have "\<forall>x \<in> set xs. deepEq (expandSignaling (compactSignaling x False) False) x"
    using 1 by simp
  then show ?case by (simp add: list_all2_map1 list_all2_same o_def)
next
  case (2 ps)
  have d: "distinct (map fst ps)" using 2(2) by simp
  let ?r1 = "if truthy (getProp (assign [] ps) ''type'')
             then moveProp ''type'' ''t'' (getProp (assign [] ps) ''type'') (assign [] ps)
             else assign [] ps"
  let ?r2 = "if truthy (getProp ?r1 ''sdp'')
             then moveProp ''sdp'' ''s'' (getProp ?r1 ''sdp'') ?r1 else ?r1"
  have r: "?r2 = condMove truthy id ''sdp'' ''s'' (condMove truthy id ''type'' ''t'' ps)"
    by (simp only: condMove_def assign_Nil [OF d] id_apply)
  have g: "getProp ?r2 ''candidates'' = getProp ps ''candidates''"
    by (simp only: r) (simp add: getProp_condMove)
  have "deepEq (expandSignaling (compactSignaling (getProp ps ''candidates'') False) False)
         (getProp ps ''candidates'')" if tr: "truthy (getProp ps ''candidates'')"
  proof -
    have t2: "truthy (getProp ?r2 ''candidates'')" using tr by (simp only: g)
    have w2: "wfSignaling (getProp ?r2 ''candidates'') False"
      using wf_candidates [OF 2(2) tr] by (simp only: g)
    from 2(1) [OF refl refl refl t2 w2] show ?thesis by (simp only: g)
  qed
  then show ?case by (rule roundtrip_root [OF 2(2)])
next
  case (3 ps)
  obtain qs where q: "expandSignaling (compactSignaling (JObj ps) False) False = JObj qs"
    and m: "map_of qs = map_of ps"
    using roundtrip_candidate [OF 3] by blast
  have "deepEq (JObj qs) (JObj ps)"
    by (rule deepEq_objI) (simp add: m rel_option_deepEq_refl)
  then show ?case by (simp only: q)
qed simp_all


lemma passthrough:
  assumes d: "distinct (map fst ps)" and k: "k \<notin> definedKeys isRoot"
  shows "\<exists>qs qs'. compactSignaling (JObj ps) isRoot = JObj qs \<and> map_of qs k = map_of ps k
           \<and> expandSignaling (JObj ps) isRoot = JObj qs' \<and> map_of qs' k = map_of ps k"
proof (cases isRoot)
  case True
  let ?c = "condMove truthy (\<lambda>v. compactSignaling v False) ''candidates'' ''c''
            (condMove truthy id ''sdp'' ''s'' (condMove truthy id ''type'' ''t'' ps))"
  let ?e = "condMove truthy (\<lambda>v. expandSignaling v False) ''c'' ''candidates''
            (condMove truthy id ''s'' ''sdp'' (condMove truthy id ''t'' ''type'' ps))"
  have c: "compactSignaling (JObj ps) isRoot = JObj ?c"
    by (simp only: True compact_root assign_Nil [OF d])
  have e: "expandSignaling (JObj ps) isRoot = JObj ?e"
    by (simp only: True expand_root assign_Nil [OF d])
  have "map_of ?c k = map_of ps k" "map_of ?e k = map_of ps k"
    using k True by (simp_all add: map_of_condMove definedKeys_def)
  then show ?thesis using c e by blast
next
  case False
  let ?c = "condMove defined id ''sdpMLineIndex'' ''i''
            (condMove truthy id ''sdpMid'' ''m'' (condMove truthy id ''candidate'' ''c'' ps))"
  let ?e = "condMove defined id ''i'' ''sdpMLineIndex''
            (condMove truthy id ''m'' ''sdpMid'' (condMove truthy id ''c'' ''candidate'' ps))"
  have c: "compactSignaling (JObj ps) isRoot = JObj ?c"
    by (simp only: False compact_candidate assign_Nil [OF d])
  have e: "expandSignaling (JObj ps) isRoot = JObj ?e"
    by (simp only: False expand_candidate assign_Nil [OF d])
  have "map_of ?c k = map_of ps k" "map_of ?e k = map_of ps k"
    using k False by (simp_all add: map_of_condMove definedKeys_def)
  then show ?thesis using c e by blast
qed

text \<open>
  Claim C5. For every well-formed payload \<open>x\<close>, at the root and below, expanding the
  compacted \<open>x\<close> gives a value that is deep-equal to \<open>x\<close>, the order of fields apart. A key
  that the codec does not define at a level passes through both functions with its value,
  whatever the object.
\<close>

theorem signaling_roundtrip:
  "(wfSignaling x isRoot \<longrightarrow> deepEq (expandSignaling (compactSignaling x isRoot) isRoot) x)
   \<and> (distinct (map fst ps) \<and> k \<notin> definedKeys isRoot \<longrightarrow>
        (\<exists>qs qs'. compactSignaling (JObj ps) isRoot = JObj qs \<and> map_of qs k = map_of ps k
           \<and> expandSignaling (JObj ps) isRoot = JObj qs' \<and> map_of qs' k = map_of ps k))"
  using roundtrip [of x isRoot] passthrough [of ps k isRoot] by blast

lemma sample_compact:
  "compactSignaling sampleOffer True =
     JObj [(''t'', JStr ''offer''), (''s'', JStr ''v=0''),
       (''c'', JArr [JObj [(''usernameFragment'', JStr ''a1b2''),
          (''c'', JStr ''candidate:1 1 udp 2122260223 192.0.2.1 54321 typ host''),
          (''m'', JStr ''0''), (''i'', JNum 0)]])]"
  by code_simp

lemma sample_expand:
  "expandSignaling (compactSignaling sampleOffer True) True =
     JObj [(''type'', JStr ''offer''), (''sdp'', JStr ''v=0''),
       (''candidates'', JArr [JObj [(''usernameFragment'', JStr ''a1b2''),
          (''candidate'', JStr ''candidate:1 1 udp 2122260223 192.0.2.1 54321 typ host''),
          (''sdpMid'', JStr ''0''), (''sdpMLineIndex'', JNum 0)]])]"
  by code_simp

lemma sample_wf: "wfSignaling sampleOffer True"
  by (simp add: sampleOffer_def sampleCandidate_def)

text \<open>
  An offer with one candidate that carries the field \<open>usernameFragment\<close>: the round trip
  returns the same fields, with the unknown field first.
\<close>

theorem signaling_roundtrip_witness:
  "wfSignaling sampleOffer True
   \<and> expandSignaling (compactSignaling sampleOffer True) True =
     JObj [(''type'', JStr ''offer''), (''sdp'', JStr ''v=0''),
       (''candidates'', JArr [JObj [(''usernameFragment'', JStr ''a1b2''),
          (''candidate'', JStr ''candidate:1 1 udp 2122260223 192.0.2.1 54321 typ host''),
          (''sdpMid'', JStr ''0''), (''sdpMLineIndex'', JNum 0)]])]
   \<and> deepEq (expandSignaling (compactSignaling sampleOffer True) True) sampleOffer"
  using sample_wf sample_expand
    signaling_roundtrip [of sampleOffer True "[]" "''usernameFragment''"]
  by simp

subsection \<open>Fragments: wrapping and parsing\<close>

lemma of_char_digitChar: "d < 10 \<Longrightarrow> (of_char (digitChar d) :: nat) = 48 + d"
  by (simp add: digitChar_def)

lemma isDigit_digitChar: "d < 10 \<Longrightarrow> isDigit (digitChar d)"
  by (simp add: isDigit_def of_char_digitChar)

lemma natToString_digits: "\<forall>c \<in> set (natToString n). isDigit c"
proof (induction n rule: natToString.induct)
  case (1 n)
  show ?case
  proof (cases "n < 10")
    case True
    then show ?thesis by (subst natToString.simps) (simp add: isDigit_digitChar)
  next
    case False
    then show ?thesis
      using 1 by (subst natToString.simps) (simp add: isDigit_digitChar)
  qed
qed

lemma natToString_nonempty: "natToString n \<noteq> []"
  by (subst natToString.simps) simp

lemma parseInt_snoc: "parseInt (ds @ [c]) = 10 * parseInt ds + (of_char c - 48)"
  by (simp add: parseInt_def)

lemma parseInt_natToString: "parseInt (natToString n) = n"
proof (induction n rule: natToString.induct)
  case (1 n)
  show ?case
  proof (cases "n < 10")
    case True
    then show ?thesis
      by (subst natToString.simps) (simp add: parseInt_def of_char_digitChar)
  next
    case False
    then have "parseInt (natToString (n div 10)) = n div 10" using 1 by simp
    then show ?thesis
      using False
      by (subst natToString.simps) (simp add: parseInt_snoc of_char_digitChar)
  qed
qed

lemma takeWhile_digits:
  "\<not> isDigit c \<Longrightarrow> takeWhile isDigit (natToString n @ c # r) = natToString n"
  using natToString_digits [of n] by (simp add: takeWhile_append2)

lemma dropWhile_digits:
  "\<not> isDigit c \<Longrightarrow> dropWhile isDigit (natToString n @ c # r) = c # r"
  using natToString_digits [of n] by (simp add: dropWhile_append2)

lemma parseChunk_wrapChunk:
  "p \<noteq> [] \<Longrightarrow> parseChunk (wrapChunk i t p)
      = Some \<lparr>chunkIndex = i, chunkTotal = t, chunkPayload = p\<rparr>"
  by (simp add: parseChunk_def wrapChunk_def takeWhile_digits dropWhile_digits isDigit_def
      natToString_nonempty parseInt_natToString)

subsection \<open>Splitting\<close>

lemma splitLoop_total:
  assumes "0 < n"
  shows "\<exists>r. splitLoop text n i chunks = Some (chunks @ r) \<and> concat r = drop i text
           \<and> (\<forall>c \<in> set r. c \<noteq> [])"
proof (induction "length text - i" arbitrary: i chunks rule: less_induct)
  case less
  show ?case
  proof (cases "i < length text")
    case False
    then show ?thesis by (subst splitLoop.simps) simp
  next
    case True
    have "length text - (i + n) < length text - i" using True assms by simp
    from less [OF this, of "chunks @ [slice text i (i + n)]"]
    obtain r where r: "splitLoop text n (i + n) (chunks @ [slice text i (i + n)])
          = Some ((chunks @ [slice text i (i + n)]) @ r)"
      and c: "concat r = drop (i + n) text" and ne: "\<forall>c \<in> set r. c \<noteq> []"
      by blast
    have s: "slice text i (i + n) @ drop (i + n) text = drop i text"
      by (simp add: slice_def add.commute [of i n] drop_drop [symmetric] del: drop_drop)
    have sne: "slice text i (i + n) \<noteq> []"
      using True assms by (simp add: slice_def)
    show ?thesis
      using True r c ne s sne
      by (subst splitLoop.simps) (auto intro!: exI [of _ "slice text i (i + n) # r"])
  qed
qed

lemma splitLoop_zero:
  assumes "splitLoop s chunkSize i chunks = Some r"
  shows "\<not> (chunkSize = 0 \<and> i < length s)"
proof (rule splitLoop.raw_induct
    [where P = "\<lambda>s chunkSize i chunks r. \<not> (chunkSize = 0 \<and> i < length s)", OF _ assms])
  fix f s chunkSize i chunks r
  assume ih: "\<And>s chunkSize i chunks r. f s chunkSize i chunks = Some r
                \<Longrightarrow> \<not> (chunkSize = 0 \<and> i < length s)"
    and body: "(if i < length s
                then f s chunkSize (i + chunkSize) (chunks @ [slice s i (i + chunkSize)])
                else Some chunks) = Some r"
  show "\<not> (chunkSize = 0 \<and> i < length s)"
  proof
    assume z: "chunkSize = 0 \<and> i < length s"
    then have "f s chunkSize (i + chunkSize) (chunks @ [slice s i (i + chunkSize)]) = Some r"
      using body by simp
    from ih [OF this] show False using z by simp
  qed
qed

lemma splitIntoChunks_zero: "s \<noteq> [] \<Longrightarrow> splitIntoChunks s 0 = None"
  using splitLoop_zero [of s 0 0 "[]"]
  by (cases "splitIntoChunks s 0") (auto simp: splitIntoChunks_def)


subsection \<open>Reassembly\<close>

lemma update_fresh: "k \<notin> fst ` set al \<Longrightarrow> AList.update k v al = al @ [(k, v)]"
  by (induction al) auto

lemma scanAll_Nil: "scanAll st [] = (st, [])"
  by (simp add: scanAll_def)

lemma scanAll_snoc:
  "scanAll st (raws @ [raw]) =
     (fst (handleScannedPayload (fst (scanAll st raws)) raw),
      snd (scanAll st raws) @ [snd (handleScannedPayload (fst (scanAll st raws)) raw)])"
  by (simp add: scanAll_def)

lemma map_of_collected:
  "j \<in> set js \<Longrightarrow> map_of (map (\<lambda>i. (Suc i, cs ! i)) js) (Suc j) = Some (cs ! j)"
  by (induction js) auto

lemma ordered_all:
  assumes "set js = {0..<length cs}"
  shows "ordered (map (\<lambda>i. (Suc i, cs ! i)) js) (length cs) = cs"
proof -
  have "ordered (map (\<lambda>i. (Suc i, cs ! i)) js) (length cs)
      = map (\<lambda>j. case map_of (map (\<lambda>i. (Suc i, cs ! i)) js) (Suc j) of None \<Rightarrow> [] | Some p \<Rightarrow> p)
          [0..<length cs]"
    by (simp add: ordered_def map_Suc_upt [symmetric] del: upt_Suc)
  also have "\<dots> = map (\<lambda>j. cs ! j) [0..<length cs]"
    using assms by (intro map_cong) (simp_all add: map_of_collected)
  finally show ?thesis by (simp add: map_nth)
qed

lemma distinct_card_le:
  assumes "distinct js" "set js \<subseteq> {0..<m}"
  shows "length js \<le> m"
proof -
  have "length js = card (set js)" using assms(1) by (simp add: distinct_card)
  also have "\<dots> \<le> card {0..<m}" using assms(2) by (intro card_mono) simp_all
  finally show ?thesis by simp
qed

lemma distinct_full:
  assumes "distinct js" "set js \<subseteq> {0..<m}" "length js = m"
  shows "set js = {0..<m}"
proof -
  have "card (set js) = card {0..<m}" using assms(1,3) by (simp add: distinct_card)
  then show ?thesis using assms(2) by (intro card_subset_eq) simp_all
qed

lemma scanAll_collect:
  assumes ne: "\<forall>c \<in> set cs. c \<noteq> []" and d: "distinct js" and sub: "set js \<subseteq> {0..<length cs}"
  shows "scanChunks (fst (scanAll resetScanChunks (map (showQR cs) js)))
           = map (\<lambda>i. (Suc i, cs ! i)) js
       \<and> (js \<noteq> [] \<longrightarrow> scanChunkTotal (fst (scanAll resetScanChunks (map (showQR cs) js))) = length cs)
       \<and> scanChunkTotal (fst (scanAll resetScanChunks (map (showQR cs) js))) \<in> {0, length cs}
       \<and> snd (scanAll resetScanChunks (map (showQR cs) js))
           = map (\<lambda>j. if Suc j < length cs then Incomplete else Complete (concat cs)) [0..<length js]"
  using d sub
proof (induction js rule: rev_induct)
  case Nil
  show ?case by (simp add: scanAll_Nil resetScanChunks_def)
next
  case (snoc i js)
  let ?st = "fst (scanAll resetScanChunks (map (showQR cs) js))"
  have d': "distinct js" and sub': "set js \<subseteq> {0..<length cs}"
    and i: "i < length cs" and fresh: "i \<notin> set js"
    using snoc.prems by auto
  note ih = snoc.IH [OF d' sub']
  have p: "parseChunk (showQR cs i)
      = Some \<lparr>chunkIndex = Suc i, chunkTotal = length cs, chunkPayload = cs ! i\<rparr>"
    using ne i by (simp add: showQR_def parseChunk_wrapChunk)
  have fr: "Suc i \<notin> fst ` set (map (\<lambda>i. (Suc i, cs ! i)) js)"
    using fresh by (auto simp: image_iff)
  have len: "Suc (length js) \<le> length cs"
    using distinct_card_le [OF snoc.prems] by simp
  have chunks: "scanChunks (fst (handleScannedPayload ?st (showQR cs i)))
      = map (\<lambda>i. (Suc i, cs ! i)) (js @ [i])"
    using ih fr by (simp add: handleScannedPayload_def p Let_def update_fresh)
  have tot: "scanChunkTotal (fst (handleScannedPayload ?st (showQR cs i))) = length cs"
    using ih by (auto simp: handleScannedPayload_def p Let_def)
  have res: "snd (handleScannedPayload ?st (showQR cs i))
      = (if Suc (length js) < length cs then Incomplete else Complete (concat cs))"
  proof (cases "Suc (length js) < length cs")
    case True
    then show ?thesis
      using chunks tot by (simp add: handleScannedPayload_def p Let_def split: if_splits)
  next
    case False
    then have "length (js @ [i]) = length cs" using len by simp
    then have full: "set (js @ [i]) = {0..<length cs}"
      using distinct_full [OF snoc.prems] by simp
    have "ordered (scanChunks (fst (handleScannedPayload ?st (showQR cs i)))) (length cs) = cs"
      using ordered_all [OF full] chunks by simp
    then show ?thesis
      using False chunks tot
      by (auto simp: handleScannedPayload_def p Let_def split: if_splits)
  qed
  show ?case
    using ih chunks tot res by (simp add: scanAll_snoc)
qed


lemma results_shape:
  "0 < m \<Longrightarrow> map (\<lambda>j. if Suc j < m then Incomplete else Complete t) [0..<m]
     = replicate (m - 1) Incomplete @ [Complete t]"
proof -
  assume m: "0 < m"
  then obtain k where k: "m = Suc k" by (cases m) auto
  have "map (\<lambda>j. if Suc j < Suc k then Incomplete else Complete t) [0..<k]
      = map (\<lambda>j. Incomplete) [0..<k]"
    by (intro map_cong) simp_all
  then show ?thesis by (simp add: k map_replicate_const)
qed

lemma splitIntoChunks_sample: "splitIntoChunks ''abcdefg'' 3 = Some [''abc'', ''def'', ''g'']"
  by (simp add: splitIntoChunks_def splitLoop.simps slice_def)

lemma showQR_sample:
  "map (showQR [''abc'', ''def'', ''g'']) [1, 0, 2]
     = [''KTN1:2/3:def'', ''KTN1:1/3:abc'', ''KTN1:3/3:g'']"
  by code_simp

text \<open>
  Claim C6, as the code has it. For every string and every chunk size of at least one,
  \<^verbatim>\<open>splitIntoChunks\<close> returns, and its chunks joined in order are the string. When the
  fragments \<^verbatim>\<open>wrapChunk(i + 1, chunks.length, chunks[i])\<close> are scanned, each once, in any
  order, into a fresh scan state, every scan but the last answers that the payload is
  incomplete, and the last one returns the string.
\<close>

theorem split_join_reassemble:
  assumes "0 < n"
  shows "\<exists>chunks. splitIntoChunks s n = Some chunks \<and> concat chunks = s
      \<and> (\<forall>js. distinct js \<and> set js = {0..<length chunks} \<and> js \<noteq> [] \<longrightarrow>
            snd (scanAll resetScanChunks (map (showQR chunks) js))
              = replicate (length chunks - 1) Incomplete @ [Complete s])"
proof -
  obtain chunks where c: "splitIntoChunks s n = Some chunks" and j: "concat chunks = s"
    and ne: "\<forall>c \<in> set chunks. c \<noteq> []"
    using splitLoop_total [OF assms, of s 0 "[]"] by (auto simp: splitIntoChunks_def)
  have "snd (scanAll resetScanChunks (map (showQR chunks) js))
          = replicate (length chunks - 1) Incomplete @ [Complete s]"
    if js: "distinct js" "set js = {0..<length chunks}" "js \<noteq> []" for js
  proof -
    have len: "length js = length chunks"
      using js(1,2) distinct_card [of js] by simp
    have pos: "0 < length chunks" using js(3) len by (cases js) auto
    have "snd (scanAll resetScanChunks (map (showQR chunks) js))
        = map (\<lambda>j. if Suc j < length chunks then Incomplete else Complete (concat chunks))
            [0..<length js]"
      using scanAll_collect [OF ne js(1)] js(2) by simp
    then show ?thesis
      using results_shape [OF pos, of "concat chunks"] by (simp add: len j)
  qed
  then show ?thesis using c j by blast
qed


text \<open>
  The string \<open>abcdefg\<close> in chunks of three, scanned in the order 2, 1, 3.
\<close>

theorem split_join_reassemble_witness:
  "splitIntoChunks ''abcdefg'' 3 = Some [''abc'', ''def'', ''g'']
   \<and> concat [''abc'', ''def'', ''g''] = ''abcdefg''
   \<and> snd (scanAll resetScanChunks [''KTN1:2/3:def'', ''KTN1:1/3:abc'', ''KTN1:3/3:g''])
       = [Incomplete, Incomplete, Complete ''abcdefg'']"
proof -
  obtain chunks where c: "splitIntoChunks ''abcdefg'' 3 = Some chunks"
    and r: "\<forall>js. distinct js \<and> set js = {0..<length chunks} \<and> js \<noteq> [] \<longrightarrow>
            snd (scanAll resetScanChunks (map (showQR chunks) js))
              = replicate (length chunks - 1) Incomplete @ [Complete ''abcdefg'']"
    using split_join_reassemble [of 3 "''abcdefg''"] by auto
  have chunks: "chunks = [''abc'', ''def'', ''g'']"
    using c by (simp add: splitIntoChunks_sample)
  have s: "set [1, 0, 2 :: nat] = {0..<length chunks}"
    by (auto simp: chunks)
  have "snd (scanAll resetScanChunks (map (showQR chunks) [1, 0, 2]))
      = replicate (length chunks - 1) Incomplete @ [Complete ''abcdefg'']"
    using r [rule_format, of "[1, 0, 2]"] s by simp
  then show ?thesis
    using showQR_sample by (simp add: chunks splitIntoChunks_sample)
qed

text \<open>
  Claim C6 as the specification words it, for every chunk size, fails at the chunk size
  \<open>0\<close>: the loop index never advances, and the call does not return.
\<close>

theorem split_zero_counterexample: "splitIntoChunks ''a'' 0 = None"
  by (rule splitIntoChunks_zero) simp


text \<open>
  Claim C2 on the code. A fragment \<open>2/3\<close> of one payload is scanned, then a fragment \<open>1/2\<close> of
  another. The second total replaces the first, as claimed, but the fragment collected
  under the first total stays in the map: the two fragments count as a complete payload of
  two, and the result joins pieces of two different payloads.
\<close>

theorem conflicting_total_keeps_fragments:
  "snd (scanAll resetScanChunks [''KTN1:2/3:BB'', ''KTN1:1/2:xx''])
     = [Incomplete, Complete ''xxBB'']
   \<and> scanChunks (fst (scanAll resetScanChunks [''KTN1:2/3:BB'', ''KTN1:1/2:xx'']))
     = [(2, ''BB''), (1, ''xx'')]
   \<and> scanChunkTotal (fst (scanAll resetScanChunks [''KTN1:2/3:BB'', ''KTN1:1/2:xx''])) = 2"
  by code_simp

subsection \<open>Chunk ids and slices\<close>





lemma concat_slices:
  assumes "0 < m"
  shows "concat (map (\<lambda>i. slice data (i * m) ((i + 1) * m)) [0..<n]) = take (n * m) data"
proof (induction n)
  case 0
  show ?case by simp
next
  case (Suc n)
  have s: "slice data (n * m) ((n + 1) * m) = take m (drop (n * m) data)"
    by (simp add: slice_def)
  have t: "take (n * m + m) data = take (n * m) data @ take m (drop (n * m) data)"
    by (rule take_add)
  have "concat (map (\<lambda>i. slice data (i * m) ((i + 1) * m)) [0..<Suc n])
      = take (n * m) data @ take m (drop (n * m) data)"
    using Suc s by simp
  also have "\<dots> = take (Suc n * m) data"
    using t by (simp add: add.commute)
  finally show ?case .
qed

lemma totalChunksOf_covers: "length data \<le> totalChunksOf data * MAX_CHUNK_SIZE"
proof -
  define q where "q = (length data + 16383) div 16384"
  have "length data + 16383 < (q + 1) * 16384"
    unfolding q_def using dividend_less_div_times [of 16384 "length data + 16383"] by simp
  then have "length data \<le> q * 16384" by simp
  then show ?thesis by (simp add: totalChunksOf_def MAX_CHUNK_SIZE_def q_def)
qed




subsection \<open>The sending loop\<close>

lemma waitForDrain_free: "bufferedAmount tr k \<le> 65536 \<Longrightarrow> waitForDrain tr k = Some (Inr (Suc k))"
  by (subst waitForDrain.simps) simp

lemma waitForDrain_error:
  assumes "waitForDrain tr k = Some r"
  shows "\<forall>e. r = Inl e \<longrightarrow> e = ChannelClosedWhileSending"
proof (rule waitForDrain.raw_induct
    [where P = "\<lambda>tr k r. \<forall>e. r = Inl e \<longrightarrow> e = ChannelClosedWhileSending", OF _ assms])
  fix f tr k r
  assume ih: "\<And>tr k r. f tr k = Some r \<Longrightarrow> \<forall>e. r = Inl e \<longrightarrow> e = ChannelClosedWhileSending"
    and body: "(if 65536 < bufferedAmount tr k
                then if stateAfterPause tr k \<noteq> Open then Some (Inl ChannelClosedWhileSending)
                     else f tr (Suc k)
                else Some (Inr (Suc k))) = Some r"
  show "\<forall>e. r = Inl e \<longrightarrow> e = ChannelClosedWhileSending"
  proof (cases "65536 < bufferedAmount tr k")
    case False
    then show ?thesis using body by auto
  next
    case True
    show ?thesis
    proof (cases "stateAfterPause tr k = Open")
      case False
      then show ?thesis using body True by auto
    next
      case o: True
      then have "f tr (Suc k) = Some r" using body True by simp
      then show ?thesis by (rule ih)
    qed
  qed
qed

lemma sendChunks_result:
  "sendChunks tr c t data js k out = Some (out', r) \<Longrightarrow>
     (\<exists>n \<le> length js. out' = out @ map (envelope c t data) (take n js))
     \<and> (\<forall>k'. r = Inr k' \<longrightarrow> out' = out @ map (envelope c t data) js)
     \<and> (\<forall>e. r = Inl e \<longrightarrow> e = ChannelClosedWhileSending)"
proof (induction js arbitrary: k out)
  case Nil
  then show ?case by auto
next
  case (Cons i js)
  show ?case
  proof (cases "waitForDrain tr k")
    case None
    then show ?thesis using Cons.prems by simp
  next
    case (Some w)
    show ?thesis
    proof (cases w)
      case (Inl e)
      then have "out' = out" "r = Inl e" using Cons.prems Some by simp_all
      moreover have "e = ChannelClosedWhileSending"
        using waitForDrain_error [OF Some] Inl by simp
      ultimately show ?thesis by (auto intro: exI [of _ 0])
    next
      case (Inr k')
      then have "sendChunks tr c t data js k' (out @ [envelope c t data i]) = Some (out', r)"
        using Cons.prems Some by simp
      from Cons.IH [OF this]
      obtain n where n: "n \<le> length js"
        "out' = (out @ [envelope c t data i]) @ map (envelope c t data) (take n js)"
        and ok: "\<forall>k'. r = Inr k' \<longrightarrow> out' = (out @ [envelope c t data i]) @ map (envelope c t data) js"
        and er: "\<forall>e. r = Inl e \<longrightarrow> e = ChannelClosedWhileSending"
        by blast
      have "Suc n \<le> length (i # js) \<and> out' = out @ map (envelope c t data) (take (Suc n) (i # js))"
        using n by simp
      then show ?thesis using ok er by (intro conjI exI [of _ "Suc n"]) simp_all
    qed
  qed
qed



lemma waitForDrain_closed:
  "65536 < bufferedAmount tr k \<Longrightarrow> stateAfterPause tr k \<noteq> Open \<Longrightarrow>
     waitForDrain tr k = Some (Inl ChannelClosedWhileSending)"
  by (subst waitForDrain.simps) simp

lemma waitForDrain_wait:
  "65536 < bufferedAmount tr k \<Longrightarrow> stateAfterPause tr k = Open \<Longrightarrow>
     waitForDrain tr k = waitForDrain tr (Suc k)"
  by (subst waitForDrain.simps) simp

lemma staysOpen_mono: "staysOpen tr k \<Longrightarrow> k \<le> k' \<Longrightarrow> staysOpen tr k'"
  by (simp add: staysOpen_def)

lemma everyWaitEnds_mono: "everyWaitEnds tr k \<Longrightarrow> k \<le> k' \<Longrightarrow> everyWaitEnds tr k'"
  by (simp add: everyWaitEnds_def)

lemma waitForDrain_ends:
  assumes "k \<le> j" "bufferedAmount tr j \<le> 65536 \<or> stateAfterPause tr j \<noteq> Open"
  shows "\<exists>r. waitForDrain tr k = Some r \<and> (\<forall>k'. r = Inr k' \<longrightarrow> k < k')
           \<and> (staysOpen tr k \<longrightarrow> (\<exists>k'. r = Inr k'))"
  using assms
proof (induction "j - k" arbitrary: k)
  case 0
  then have kj: "k = j" by simp
  show ?case
  proof (cases "bufferedAmount tr k \<le> 65536")
    case True
    then show ?thesis by (simp add: waitForDrain_free)
  next
    case False
    then have b: "65536 < bufferedAmount tr k" by simp
    then have c: "stateAfterPause tr k \<noteq> Open" using "0.prems"(2) kj by auto
    have "\<not> staysOpen tr k" using b c by (auto simp: staysOpen_def)
    then show ?thesis using waitForDrain_closed [OF b c] by simp
  qed
next
  case (Suc d)
  show ?case
  proof (cases "bufferedAmount tr k \<le> 65536")
    case True
    then show ?thesis by (simp add: waitForDrain_free)
  next
    case False
    then have b: "65536 < bufferedAmount tr k" by simp
    show ?thesis
    proof (cases "stateAfterPause tr k = Open")
      case False
      have "\<not> staysOpen tr k" using b False by (auto simp: staysOpen_def)
      then show ?thesis using waitForDrain_closed [OF b False] by simp
    next
      case True
      have d: "d = j - Suc k" using Suc.hyps(2) by simp
      have le: "Suc k \<le> j" using Suc.hyps(2) by simp
      obtain r where r: "waitForDrain tr (Suc k) = Some r"
        "\<forall>k'. r = Inr k' \<longrightarrow> Suc k < k'" "staysOpen tr (Suc k) \<longrightarrow> (\<exists>k'. r = Inr k')"
        using Suc.hyps(1) [OF d le Suc.prems(2)] by blast
      have "waitForDrain tr k = Some r" using waitForDrain_wait [OF b True] r(1) by simp
      moreover have "\<forall>k'. r = Inr k' \<longrightarrow> k < k'" using r(2) by auto
      moreover have "staysOpen tr k \<longrightarrow> (\<exists>k'. r = Inr k')"
        using r(3) staysOpen_mono [of tr k "Suc k"] by auto
      ultimately show ?thesis by blast
    qed
  qed
qed

lemma neverDrains_Suc: "neverDrains tr k \<Longrightarrow> neverDrains tr (Suc k)"
  by (auto simp: neverDrains_def)

lemma waitForDrain_neverDrains:
  assumes "neverDrains tr k"
  shows "waitForDrain tr k = None"
proof (rule ccontr)
  assume "waitForDrain tr k \<noteq> None"
  then obtain r where r: "waitForDrain tr k = Some r" by auto
  have "\<not> neverDrains tr k"
  proof (rule waitForDrain.raw_induct [where P = "\<lambda>tr k r. \<not> neverDrains tr k", OF _ r])
    fix f tr k r
    assume ih: "\<And>tr k r. f tr k = Some r \<Longrightarrow> \<not> neverDrains tr k"
      and body: "(if 65536 < bufferedAmount tr k
                then if stateAfterPause tr k \<noteq> Open then Some (Inl ChannelClosedWhileSending)
                     else f tr (Suc k)
                else Some (Inr (Suc k))) = Some r"
    show "\<not> neverDrains tr k"
    proof
      assume n: "neverDrains tr k"
      then have "65536 < bufferedAmount tr k" "stateAfterPause tr k = Open"
        by (simp_all add: neverDrains_def)
      then have "f tr (Suc k) = Some r" using body by simp
      then have "\<not> neverDrains tr (Suc k)" by (rule ih)
      then show False using neverDrains_Suc [OF n] by simp
    qed
  qed
  then show False using assms by simp
qed

lemma sendChunks_returns:
  assumes "everyWaitEnds tr k"
  shows "\<exists>out' r. sendChunks tr c t data js k out = Some (out', r)
           \<and> (staysOpen tr k \<longrightarrow> (\<exists>k'. r = Inr k'))"
  using assms
proof (induction js arbitrary: k out)
  case Nil
  then show ?case by simp
next
  case (Cons i js)
  obtain j where j: "k \<le> j" "bufferedAmount tr j \<le> 65536 \<or> stateAfterPause tr j \<noteq> Open"
    using Cons.prems by (auto simp: everyWaitEnds_def)
  obtain w where w: "waitForDrain tr k = Some w" "\<forall>k'. w = Inr k' \<longrightarrow> k < k'"
    "staysOpen tr k \<longrightarrow> (\<exists>k'. w = Inr k')"
    using waitForDrain_ends [OF j] by blast
  show ?case
  proof (cases w)
    case (Inl e)
    then show ?thesis using w by auto
  next
    case (Inr k')
    then have lt: "k \<le> k'" using w(2) by auto
    obtain out' r where s: "sendChunks tr c t data js k' (out @ [envelope c t data i]) = Some (out', r)"
      "staysOpen tr k' \<longrightarrow> (\<exists>k''. r = Inr k'')"
      using Cons.IH [OF everyWaitEnds_mono [OF Cons.prems lt]] by blast
    then show ?thesis using w(1) Inr staysOpen_mono [OF _ lt] by auto
  qed
qed

lemma sendChunks_neverDrains:
  "neverDrains tr k \<Longrightarrow> js \<noteq> [] \<Longrightarrow> sendChunks tr c t data js k out = None"
  by (cases js) (simp_all add: waitForDrain_neverDrains)

lemma sendChunks_error_prefix:
  "sendChunks tr c t data js k out = Some (out', Inl e) \<Longrightarrow>
     \<exists>n < length js. out' = out @ map (envelope c t data) (take n js)"
proof (induction js arbitrary: k out)
  case Nil
  then show ?case by simp
next
  case (Cons i js)
  show ?case
  proof (cases "waitForDrain tr k")
    case None
    then show ?thesis using Cons.prems by simp
  next
    case (Some w)
    show ?thesis
    proof (cases w)
      case (Inl e')
      then have "out' = out" using Cons.prems Some by simp
      then show ?thesis by (auto intro: exI [of _ 0])
    next
      case (Inr k')
      then have "sendChunks tr c t data js k' (out @ [envelope c t data i]) = Some (out', Inl e)"
        using Cons.prems Some by simp
      from Cons.IH [OF this]
      obtain n where n: "n < length js"
        "out' = (out @ [envelope c t data i]) @ map (envelope c t data) (take n js)"
        by blast
      have "Suc n < length (i # js) \<and> out' = out @ map (envelope c t data) (take (Suc n) (i # js))"
        using n by simp
      then show ?thesis by (intro exI [of _ "Suc n"])
    qed
  qed
qed


lemma free_everyWaitEnds:
  assumes "\<forall>j. bufferedAmount tr j \<le> 65536"
  shows "everyWaitEnds tr k \<and> staysOpen tr k"
proof -
  have "\<not> 65536 < bufferedAmount tr j" for j using assms [rule_format, of j] by simp
  then show ?thesis using assms by (auto simp: everyWaitEnds_def staysOpen_def)
qed


subsection \<open>The reassembly buffer\<close>

lemma onMessage_other: "\<not> isChunkOf c f \<Longrightarrow> fst (onMessage bufs f) c = bufs c"
  by (cases f) (auto simp: isChunkOf_def Let_def)

lemma collected_empty: "collectedChunks data t {} = replicate t None"
  by (simp add: collectedChunks_def map_replicate_const)

lemma falsy_fresh: "i < t \<Longrightarrow> i \<notin> S \<Longrightarrow> falsyAt (collectedChunks data t S) i"
  by (simp add: falsyAt_def collectedChunks_def)

lemma setAt_collected:
  "i < t \<Longrightarrow> v = slice data (i * MAX_CHUNK_SIZE) ((i + 1) * MAX_CHUNK_SIZE) \<Longrightarrow>
     setAt (collectedChunks data t S) i v = collectedChunks data t (insert i S)"
  by (auto simp: setAt_def collectedChunks_def list_eq_iff_nth_eq nth_list_update)

lemma join_full:
  "joinChunks (collectedChunks data (totalChunksOf data) {0..<totalChunksOf data}) = data"
proof -
  have "collectedChunks data (totalChunksOf data) {0..<totalChunksOf data}
      = map (\<lambda>i. Some (slice data (i * MAX_CHUNK_SIZE) ((i + 1) * MAX_CHUNK_SIZE)))
          [0..<totalChunksOf data]"
    unfolding collectedChunks_def by (intro map_cong) simp_all
  then have "joinChunks (collectedChunks data (totalChunksOf data) {0..<totalChunksOf data})
      = concat (map (\<lambda>i. slice data (i * MAX_CHUNK_SIZE) ((i + 1) * MAX_CHUNK_SIZE))
          [0..<totalChunksOf data])"
    by (simp add: joinChunks_def o_def)
  also have "\<dots> = take (totalChunksOf data * MAX_CHUNK_SIZE) data"
    by (rule concat_slices) (simp add: MAX_CHUNK_SIZE_def)
  finally show ?thesis using totalChunksOf_covers [of data] by simp
qed

lemma onMessage_chunk:
  assumes inv: "if S = {} then bufs c = None else bufs c = Some (bufferOf data t S)"
    and fin: "finite S" and i: "i < t" "i \<notin> S"
  shows "onMessage bufs (envelope c t data i) =
     (if card S + 1 = t
      then (bufs(c := None), Some (joinChunks (collectedChunks data t (insert i S))))
      else (bufs(c \<mapsto> bufferOf data t (insert i S)), None))"
proof -
  have b: "(case bufs c of None \<Rightarrow> \<lparr>bufChunks = replicate t None, bufReceived = 0, bufTotal = t\<rparr>
            | Some b \<Rightarrow> b) = bufferOf data t S"
    using inv by (cases "S = {}") (simp_all add: bufferOf_def collected_empty)
  have c: "card (insert i S) = card S + 1" using fin i(2) by simp
  show ?thesis
    unfolding envelope_def
    by (simp add: b Let_def) (simp add: bufferOf_def falsy_fresh [OF i] setAt_collected [OF i(1)] c)
qed

lemma onMessages_other:
  "filter (isChunkOf c) fs = [] \<Longrightarrow>
     fst (onMessages bufs fs) c = bufs c \<and> deliveriesFor c fs (snd (onMessages bufs fs)) = []"
proof (induction fs arbitrary: bufs)
  case Nil
  show ?case by (simp add: deliveriesFor_def)
next
  case (Cons f fs)
  have nf: "\<not> isChunkOf c f" and rest: "filter (isChunkOf c) fs = []"
    using Cons.prems by (auto split: if_splits)
  show ?case
    using Cons.IH [OF rest, of "fst (onMessage bufs f)"] onMessage_other [OF nf, of bufs] nf
    by (simp add: Let_def deliveriesFor_def)
qed

lemma card_bound:
  assumes "finite S" "distinct js" "S \<inter> set js = {}" "S \<union> set js = {0..<t}"
  shows "card S + length js = t"
proof -
  have "card (S \<union> set js) = card S + card (set js)"
    using assms(1,3) by (intro card_Un_disjoint) simp_all
  then show ?thesis using assms(2,4) by (simp add: distinct_card)
qed

lemma recv_stream:
  assumes t: "t = totalChunksOf data"
  shows "(if S = {} then bufs c = None else bufs c = Some (bufferOf data t S)) \<Longrightarrow>
     finite S \<Longrightarrow> distinct js \<Longrightarrow> S \<inter> set js = {} \<Longrightarrow> S \<union> set js = {0..<t} \<Longrightarrow> js \<noteq> [] \<Longrightarrow>
     filter (isChunkOf c) fs = map (envelope c t data) js \<Longrightarrow>
     deliveriesFor c fs (snd (onMessages bufs fs)) = replicate (length js - 1) None @ [Some data]
     \<and> fst (onMessages bufs fs) c = None"
proof (induction fs arbitrary: bufs S js)
  case Nil
  then show ?case by simp
next
  case (Cons f fs)
  show ?case
  proof (cases "isChunkOf c f")
    case False
    then have rest: "filter (isChunkOf c) fs = map (envelope c t data) js"
      using Cons.prems(7) by simp
    have inv: "if S = {} then fst (onMessage bufs f) c = None
               else fst (onMessage bufs f) c = Some (bufferOf data t S)"
      using Cons.prems(1) onMessage_other [OF False, of bufs] by simp
    show ?thesis
      using Cons.IH [where S = S and js = js and bufs = "fst (onMessage bufs f)",
          OF inv Cons.prems(2-6) rest] False
      by (simp add: Let_def deliveriesFor_def)
  next
    case True
    then obtain i js' where js: "js = i # js'" and f: "f = envelope c t data i"
      and rest: "filter (isChunkOf c) fs = map (envelope c t data) js'"
      using Cons.prems(7) by (cases js) auto
    have i: "i < t" "i \<notin> S" using Cons.prems(4,5) js by auto
    have cb: "card S + length js = t"
      by (rule card_bound [OF Cons.prems(2,3,4,5)])
    note step = onMessage_chunk [where bufs = bufs and c = c and S = S and data = data and t = t
        and i = i, OF Cons.prems(1,2) i]
    show ?thesis
    proof (cases "js' = []")
      case True
      then have full: "card S + 1 = t" using cb js by simp
      have "insert i S = {0..<t}" using Cons.prems(5) js True by auto
      then have d: "joinChunks (collectedChunks data t (insert i S)) = data"
        using join_full [of data] t by simp
      have s: "onMessage bufs f = (bufs(c := None), Some data)"
        using step full d f by simp
      have "filter (isChunkOf c) fs = []" using rest True by simp
      from onMessages_other [OF this, of "bufs(c := None)"]
      show ?thesis
        using s \<open>isChunkOf c f\<close> js True by (simp add: Let_def deliveriesFor_def)
    next
      case False
      then have more: "card S + 1 \<noteq> t" using cb js by (cases js') auto
      have s: "onMessage bufs f = (bufs(c \<mapsto> bufferOf data t (insert i S)), None)"
        using step more f by simp
      let ?b = "bufs(c \<mapsto> bufferOf data t (insert i S))"
      have inv: "if insert i S = {} then ?b c = None
                 else ?b c = Some (bufferOf data t (insert i S))"
        by simp
      have p: "finite (insert i S)" "distinct js'" "insert i S \<inter> set js' = {}"
        "insert i S \<union> set js' = {0..<t}"
        using Cons.prems(2-5) js by auto
      have ih: "deliveriesFor c fs (snd (onMessages ?b fs))
            = replicate (length js' - 1) None @ [Some data]
          \<and> fst (onMessages ?b fs) c = None"
        by (rule Cons.IH [where S = "insert i S" and js = js' and bufs = ?b,
              OF inv p False rest])
      have r: "replicate (length js - 1) None @ [Some data]
          = None # replicate (length js' - 1) None @ [Some data]"
        using js False by (cases js') simp_all
      have o: "onMessages bufs (f # fs) = (fst (onMessages ?b fs), None # snd (onMessages ?b fs))"
        by (simp add: s Let_def)
      have "deliveriesFor c (f # fs) (None # snd (onMessages ?b fs))
          = None # deliveriesFor c fs (snd (onMessages ?b fs))"
        using \<open>isChunkOf c f\<close> by (simp add: deliveriesFor_def)
      then show ?thesis
        using ih by (simp only: o r fst_conv snd_conv)
    qed
  qed
qed


lemma totalChunksOf_pos: "MAX_CHUNK_SIZE < length data \<Longrightarrow> 0 < totalChunksOf data"
  by (simp add: totalChunksOf_def MAX_CHUNK_SIZE_def)

lemma sample_total: "totalChunksOf sampleMessage = 3"
  by (simp add: totalChunksOf_def MAX_CHUNK_SIZE_def sampleMessage_def)



subsection \<open>Chunked messages\<close>

text \<open>
  Claim C7. Take a message longer than one chunk and the envelopes that \<^verbatim>\<open>sendMessage\<close>
  makes of it under a chunk id for which the receiver has no buffer. Let them arrive in any
  order, among any frames of other chunk ids and other messages. Then the listener hands
  nothing on at any of these envelopes but the last, where it hands on the original
  message; afterwards the buffer of the chunk id is gone.
\<close>

theorem chunked_message_reassembly:
  assumes big: "MAX_CHUNK_SIZE < length data"
    and fresh: "chunkBuffers c = None"
    and perm: "distinct js" "set js = {0..<totalChunksOf data}"
    and arrive: "filter (isChunkOf c) fs = map (envelope c (totalChunksOf data) data) js"
  shows "deliveriesFor c fs (snd (onMessages chunkBuffers fs))
           = replicate (totalChunksOf data - 1) None @ [Some data]
       \<and> fst (onMessages chunkBuffers fs) c = None"
proof -
  have len: "length js = totalChunksOf data"
    using perm distinct_card [of js] by simp
  have ne: "js \<noteq> []" using totalChunksOf_pos [OF big] len by auto
  have inv: "if ({} :: nat set) = {} then chunkBuffers c = None
             else chunkBuffers c = Some (bufferOf data (totalChunksOf data) {})"
    using fresh by simp
  show ?thesis
    using recv_stream [where S = "{}" and js = js and bufs = chunkBuffers and c = c and fs = fs
        and data = data, OF refl inv _ perm(1) _ _ ne arrive] perm(2)
    by (simp add: len)
qed


text \<open>
  The three envelopes of the 40 KiB message arrive in the order 2, 0, 1, with another message
  in between.
\<close>

theorem chunked_message_reassembly_witness:
  "deliveriesFor sampleChunkId
     [envelope sampleChunkId 3 sampleMessage 2, DataFrame ''ping'',
      envelope sampleChunkId 3 sampleMessage 0, envelope sampleChunkId 3 sampleMessage 1]
     (snd (onMessages Map.empty
       [envelope sampleChunkId 3 sampleMessage 2, DataFrame ''ping'',
        envelope sampleChunkId 3 sampleMessage 0, envelope sampleChunkId 3 sampleMessage 1]))
     = [None, None, Some sampleMessage]
   \<and> fst (onMessages Map.empty
       [envelope sampleChunkId 3 sampleMessage 2, DataFrame ''ping'',
        envelope sampleChunkId 3 sampleMessage 0, envelope sampleChunkId 3 sampleMessage 1])
       sampleChunkId = None"
proof -
  have big: "MAX_CHUNK_SIZE < length sampleMessage"
    by (simp add: MAX_CHUNK_SIZE_def sampleMessage_def)
  have fresh: "(Map.empty :: string \<rightharpoonup> chunkBuffer) sampleChunkId = None" by simp
  have perm: "distinct [2, 0, 1 :: nat]" "set [2, 0, 1 :: nat] = {0..<totalChunksOf sampleMessage}"
    by (auto simp: sample_total)
  have arrive: "filter (isChunkOf sampleChunkId)
       [envelope sampleChunkId 3 sampleMessage 2, DataFrame ''ping'',
        envelope sampleChunkId 3 sampleMessage 0, envelope sampleChunkId 3 sampleMessage 1]
     = map (envelope sampleChunkId (totalChunksOf sampleMessage) sampleMessage) [2, 0, 1]"
    by (simp add: sample_total isChunkOf_def envelope_def)
  show ?thesis
    using chunked_message_reassembly [OF big fresh perm arrive]
    by (simp add: sample_total numeral_3_eq_3)
qed







lemma closing_waits: "everyWaitEnds closingTransport 0"
  by (auto simp: everyWaitEnds_def closingTransport_def)






subsection \<open>Validation of the kind of a payload\<close>




















subsection \<open>The sync handlers and the flag\<close>

lemma sendMessage_open_succeeds:
  assumes o: "currentDataChannel st = Some Open"
    and c: "length data \<le> MAX_CHUNK_SIZE \<or> (everyWaitEnds tr k \<and> staysOpen tr k)"
  shows "sendMessage tr k now st data q = Some (st\<lparr>sent := sent st @ framesOf now data\<rparr>, Inr True)"
proof (cases "MAX_CHUNK_SIZE < length data")
  case False
  then show ?thesis using o by (simp add: sendMessage_def framesOf_def)
next
  case True
  let ?t = "totalChunksOf data"
  have w: "everyWaitEnds tr k" "staysOpen tr k" using c True by auto
  obtain out k' where sc: "sendChunks tr (toString36 now) ?t data [0..<?t] k (sent st) = Some (out, Inr k')"
    using sendChunks_returns [OF w(1), where c = "toString36 now" and t = ?t and data = data
        and js = "[0..<?t]" and out = "sent st"] w(2)
    by blast
  have "out = sent st @ map (envelope (toString36 now) ?t data) [0..<?t]"
    using sendChunks_result [OF sc] by blast
  then show ?thesis using sc True o by (simp add: sendMessage_def framesOf_def)
qed

lemma sendMessage_open_returns:
  assumes o: "currentDataChannel st = Some Open" and w: "everyWaitEnds tr k"
  shows "sendMessage tr k now st data q = Some (st\<lparr>sent := sent st @ framesOf now data\<rparr>, Inr True)
     \<or> (\<exists>n < length (framesOf now data). sendMessage tr k now st data q
            = Some (st\<lparr>sent := sent st @ take n (framesOf now data)\<rparr>, Inl ChannelClosedWhileSending))"
proof (cases "MAX_CHUNK_SIZE < length data")
  case False
  then show ?thesis using sendMessage_open_succeeds [OF o, of data tr k now q] by simp
next
  case True
  let ?t = "totalChunksOf data"
  let ?env = "envelope (toString36 now) ?t data"
  have fo: "framesOf now data = map ?env [0..<?t]" using True by (simp add: framesOf_def)
  obtain out r where sc: "sendChunks tr (toString36 now) ?t data [0..<?t] k (sent st) = Some (out, r)"
    using sendChunks_returns [OF w] by blast
  show ?thesis
  proof (cases r)
    case (Inr k')
    have "out = sent st @ map ?env [0..<?t]"
      using sendChunks_result [OF sc] Inr by blast
    then show ?thesis using sc True o Inr by (simp add: sendMessage_def fo)
  next
    case (Inl e)
    have e: "e = ChannelClosedWhileSending" using sendChunks_result [OF sc] Inl by blast
    obtain n where n: "n < length [0..<?t]" "out = sent st @ map ?env (take n [0..<?t])"
      using sendChunks_error_prefix [OF sc [unfolded Inl]] by blast
    have "n < length (framesOf now data)" using n(1) by (simp add: fo)
    moreover have "sendMessage tr k now st data q
        = Some (st\<lparr>sent := sent st @ take n (framesOf now data)\<rparr>, Inl ChannelClosedWhileSending)"
      using sc True o Inl e n(2) by (simp add: sendMessage_def fo take_map)
    ultimately show ?thesis by blast
  qed
qed

lemma sendMessage_open_hangs:
  assumes o: "currentDataChannel st = Some Open" and big: "MAX_CHUNK_SIZE < length data"
    and n: "neverDrains tr k"
  shows "sendMessage tr k now st data q = None"
proof -
  have "[0..<totalChunksOf data] \<noteq> []" using totalChunksOf_pos [OF big] by simp
  then have "sendChunks tr (toString36 now) (totalChunksOf data) data [0..<totalChunksOf data] k (sent st)
      = None"
    using n by (rule sendChunks_neverDrains [rotated])
  then show ?thesis using big o by (simp add: sendMessage_def)
qed

lemma handleSyncRequest_flag:
  "isChannelOpen eng \<Longrightarrow> handleSyncRequest env (eng\<lparr>syncInProgress := b\<rparr>) = handleSyncRequest env eng"
  by (simp add: handleSyncRequest_def isChannelOpen_def send_def)

lemma handleSyncData_flag:
  "handleSyncData env message (eng\<lparr>syncInProgress := b\<rparr>) = handleSyncData env message eng"
  by (simp add: handleSyncData_def isChannelOpen_def send_def)

lemma handleSyncRequest_sent:
  assumes "sendMessage (envTransport env) (envReading env) (envNow env) (channel eng)
      (requestText env eng) True = Some (ch, Inr True)" "isChannelOpen eng"
  shows "handleSyncRequest env eng = Some (eng\<lparr>syncInProgress := True, channel := ch\<rparr>)"
  using assms by (simp add: handleSyncRequest_def send_def Let_def)

lemma handleSyncRequest_thrown:
  assumes "sendMessage (envTransport env) (envReading env) (envNow env) (channel eng)
      (requestText env eng) True = Some (ch, Inl e)" "isChannelOpen eng"
  shows "handleSyncRequest env eng = Some (eng\<lparr>syncInProgress := False, channel := ch,
      toasts := toasts eng @ [NoticeSendSyncDataFailed]\<rparr>)"
  using assms by (simp add: handleSyncRequest_def send_def Let_def)

lemma handleSyncRequest_hangs:
  assumes "sendMessage (envTransport env) (envReading env) (envNow env) (channel eng)
      (requestText env eng) True = None" "isChannelOpen eng"
  shows "handleSyncRequest env eng = None"
  using assms by (simp add: handleSyncRequest_def send_def Let_def)

lemma handleSyncData_sent:
  assumes "sendMessage (envTransport env) (envReading env) (envNow env) (channel eng)
      (ackText env message eng) True = Some (ch, Inr True)" "isChannelOpen eng"
  shows "handleSyncData env message eng = Some (eng\<lparr>syncInProgress := False,
      store := mergedStore env message eng, channel := ch,
      toasts := toasts eng @ [NoticeReceiveComplete (mergedCounts env message eng)]\<rparr>)"
  using assms by (simp add: handleSyncData_def send_def Let_def isChannelOpen_def)

lemma handleSyncData_thrown:
  assumes "sendMessage (envTransport env) (envReading env) (envNow env) (channel eng)
      (ackText env message eng) True = Some (ch, Inl e)" "isChannelOpen eng"
  shows "handleSyncData env message eng = Some (eng\<lparr>syncInProgress := False,
      store := mergedStore env message eng, channel := ch,
      toasts := toasts eng @ [NoticeMergeFailed]\<rparr>)"
  using assms by (simp add: handleSyncData_def send_def Let_def isChannelOpen_def)

lemma handleSyncData_hangs:
  assumes "sendMessage (envTransport env) (envReading env) (envNow env) (channel eng)
      (ackText env message eng) True = None" "isChannelOpen eng"
  shows "handleSyncData env message eng = None"
  using assms by (simp add: handleSyncData_def send_def Let_def isChannelOpen_def)

lemma handleSyncData_closed:
  "\<not> isChannelOpen eng \<Longrightarrow> handleSyncData env message eng
     = Some (eng\<lparr>syncInProgress := False, store := mergedStore env message eng\<rparr>)"
  by (simp add: handleSyncData_def Let_def isChannelOpen_def)

lemma handleSyncRequest_closed:
  "\<not> isChannelOpen eng \<Longrightarrow> handleSyncRequest env eng
     = Some (eng\<lparr>toasts := toasts eng @ [NoticeDisconnected]\<rparr>)"
  by (simp add: handleSyncRequest_def)

text \<open>
  Claim C1, as the code has it. No handler reads the flag \<^verbatim>\<open>syncInProgress\<close>: with the
  channel open, \<^verbatim>\<open>handleSyncRequest\<close> does the same whatever the flag, and so does
  \<^verbatim>\<open>handleSyncData\<close> on any channel; \<^verbatim>\<open>handleSyncMessage\<close> hands the two messages on
  without a test. On a channel that is not open, \<^verbatim>\<open>handleSyncRequest\<close> shows a toast and
  sends nothing, and \<^verbatim>\<open>handleSyncData\<close> merges, sends nothing and clears the flag. On an
  open channel \<^verbatim>\<open>handleSyncRequest\<close> sets the flag and sends the frames of the \<^verbatim>\<open>sync_data\<close>
  that carries the local collections; \<^verbatim>\<open>handleSyncData\<close> merges the received collections,
  sends the frames of the \<^verbatim>\<open>sync_ack\<close> that carries the collections after the merge, shows
  the counts and clears the flag. This is what happens when the text fits one frame, or
  when every wait for the buffer ends and the channel stays open. When every wait ends, the
  only other outcome is that the channel closed during a pause: then fewer frames than all
  were sent, the flag is cleared and a failure toast is shown. When the text is longer than
  one frame and the buffer never drains, the handler does not return.
\<close>

theorem sync_handlers_ignore_flag:
  "(isChannelOpen eng \<longrightarrow>
      handleSyncRequest env (eng\<lparr>syncInProgress := b\<rparr>) = handleSyncRequest env eng)
   \<and> handleSyncData env message (eng\<lparr>syncInProgress := b\<rparr>) = handleSyncData env message eng
   \<and> handleSyncMessage env SyncRequest eng = handleSyncRequest env eng
   \<and> handleSyncMessage env (SyncData message) eng = handleSyncData env message eng
   \<and> (\<not> isChannelOpen eng \<longrightarrow>
        handleSyncRequest env eng = Some (eng\<lparr>toasts := toasts eng @ [NoticeDisconnected]\<rparr>)
        \<and> handleSyncData env message eng
            = Some (eng\<lparr>syncInProgress := False, store := mergedStore env message eng\<rparr>))
   \<and> (isChannelOpen eng
        \<and> (length (requestText env eng) \<le> MAX_CHUNK_SIZE
            \<or> everyWaitEnds (envTransport env) (envReading env)
              \<and> staysOpen (envTransport env) (envReading env)) \<longrightarrow>
        handleSyncRequest env eng
          = Some (eng\<lparr>syncInProgress := True,
               channel := (channel eng)\<lparr>sent := sent (channel eng)
                  @ framesOf (envNow env) (requestText env eng)\<rparr>\<rparr>))
   \<and> (isChannelOpen eng
        \<and> (length (ackText env message eng) \<le> MAX_CHUNK_SIZE
            \<or> everyWaitEnds (envTransport env) (envReading env)
              \<and> staysOpen (envTransport env) (envReading env)) \<longrightarrow>
        handleSyncData env message eng
          = Some (eng\<lparr>syncInProgress := False, store := mergedStore env message eng,
               channel := (channel eng)\<lparr>sent := sent (channel eng)
                  @ framesOf (envNow env) (ackText env message eng)\<rparr>,
               toasts := toasts eng @ [NoticeReceiveComplete (mergedCounts env message eng)]\<rparr>))
   \<and> (isChannelOpen eng \<and> everyWaitEnds (envTransport env) (envReading env) \<longrightarrow>
        (handleSyncRequest env eng
          = Some (eng\<lparr>syncInProgress := True,
               channel := (channel eng)\<lparr>sent := sent (channel eng)
                  @ framesOf (envNow env) (requestText env eng)\<rparr>\<rparr>)
         \<or> (\<exists>n < length (framesOf (envNow env) (requestText env eng)).
              handleSyncRequest env eng
                = Some (eng\<lparr>syncInProgress := False,
                     channel := (channel eng)\<lparr>sent := sent (channel eng)
                        @ take n (framesOf (envNow env) (requestText env eng))\<rparr>,
                     toasts := toasts eng @ [NoticeSendSyncDataFailed]\<rparr>)))
        \<and> (handleSyncData env message eng
          = Some (eng\<lparr>syncInProgress := False, store := mergedStore env message eng,
               channel := (channel eng)\<lparr>sent := sent (channel eng)
                  @ framesOf (envNow env) (ackText env message eng)\<rparr>,
               toasts := toasts eng @ [NoticeReceiveComplete (mergedCounts env message eng)]\<rparr>)
         \<or> (\<exists>n < length (framesOf (envNow env) (ackText env message eng)).
              handleSyncData env message eng
                = Some (eng\<lparr>syncInProgress := False, store := mergedStore env message eng,
                     channel := (channel eng)\<lparr>sent := sent (channel eng)
                        @ take n (framesOf (envNow env) (ackText env message eng))\<rparr>,
                     toasts := toasts eng @ [NoticeMergeFailed]\<rparr>))))
   \<and> (isChannelOpen eng \<and> neverDrains (envTransport env) (envReading env) \<longrightarrow>
        (MAX_CHUNK_SIZE < length (requestText env eng) \<longrightarrow> handleSyncRequest env eng = None)
        \<and> (MAX_CHUNK_SIZE < length (ackText env message eng) \<longrightarrow>
              handleSyncData env message eng = None))"
proof -
  let ?tr = "envTransport env" and ?k = "envReading env" and ?now = "envNow env"
  let ?rt = "requestText env eng" and ?at = "ackText env message eng"
  have o: "currentDataChannel (channel eng) = Some Open" if "isChannelOpen eng"
    using that by (simp add: isChannelOpen_def)
  have c1: "isChannelOpen eng \<longrightarrow>
      handleSyncRequest env (eng\<lparr>syncInProgress := b\<rparr>) = handleSyncRequest env eng"
    by (simp add: handleSyncRequest_flag)
  have c2: "handleSyncData env message (eng\<lparr>syncInProgress := b\<rparr>) = handleSyncData env message eng"
    by (rule handleSyncData_flag)
  have c3: "handleSyncMessage env SyncRequest eng = handleSyncRequest env eng"
    "handleSyncMessage env (SyncData message) eng = handleSyncData env message eng"
    by (simp_all add: handleSyncMessage_def)
  have c4: "\<not> isChannelOpen eng \<longrightarrow>
        handleSyncRequest env eng = Some (eng\<lparr>toasts := toasts eng @ [NoticeDisconnected]\<rparr>)
        \<and> handleSyncData env message eng
            = Some (eng\<lparr>syncInProgress := False, store := mergedStore env message eng\<rparr>)"
    using handleSyncRequest_closed [of eng env] handleSyncData_closed [of eng env message] by blast
  have c5: "handleSyncRequest env eng
          = Some (eng\<lparr>syncInProgress := True,
               channel := (channel eng)\<lparr>sent := sent (channel eng) @ framesOf ?now ?rt\<rparr>\<rparr>)"
    if op: "isChannelOpen eng"
      and c: "length ?rt \<le> MAX_CHUNK_SIZE \<or> everyWaitEnds ?tr ?k \<and> staysOpen ?tr ?k"
    by (rule handleSyncRequest_sent [OF sendMessage_open_succeeds [OF o [OF op] c] op])
  have c6: "handleSyncData env message eng
          = Some (eng\<lparr>syncInProgress := False, store := mergedStore env message eng,
               channel := (channel eng)\<lparr>sent := sent (channel eng) @ framesOf ?now ?at\<rparr>,
               toasts := toasts eng @ [NoticeReceiveComplete (mergedCounts env message eng)]\<rparr>)"
    if op: "isChannelOpen eng"
      and c: "length ?at \<le> MAX_CHUNK_SIZE \<or> everyWaitEnds ?tr ?k \<and> staysOpen ?tr ?k"
    by (rule handleSyncData_sent [OF sendMessage_open_succeeds [OF o [OF op] c] op])
  have c7: "handleSyncRequest env eng
          = Some (eng\<lparr>syncInProgress := True,
               channel := (channel eng)\<lparr>sent := sent (channel eng) @ framesOf ?now ?rt\<rparr>\<rparr>)
         \<or> (\<exists>n < length (framesOf ?now ?rt).
              handleSyncRequest env eng
                = Some (eng\<lparr>syncInProgress := False,
                     channel := (channel eng)\<lparr>sent := sent (channel eng)
                        @ take n (framesOf ?now ?rt)\<rparr>,
                     toasts := toasts eng @ [NoticeSendSyncDataFailed]\<rparr>))"
    if op: "isChannelOpen eng" and w: "everyWaitEnds ?tr ?k"
    using sendMessage_open_returns [OF o [OF op] w, of ?now ?rt True]
      handleSyncRequest_sent [OF _ op] handleSyncRequest_thrown [OF _ op]
    by blast
  have c8: "handleSyncData env message eng
          = Some (eng\<lparr>syncInProgress := False, store := mergedStore env message eng,
               channel := (channel eng)\<lparr>sent := sent (channel eng) @ framesOf ?now ?at\<rparr>,
               toasts := toasts eng @ [NoticeReceiveComplete (mergedCounts env message eng)]\<rparr>)
         \<or> (\<exists>n < length (framesOf ?now ?at).
              handleSyncData env message eng
                = Some (eng\<lparr>syncInProgress := False, store := mergedStore env message eng,
                     channel := (channel eng)\<lparr>sent := sent (channel eng)
                        @ take n (framesOf ?now ?at)\<rparr>,
                     toasts := toasts eng @ [NoticeMergeFailed]\<rparr>))"
    if op: "isChannelOpen eng" and w: "everyWaitEnds ?tr ?k"
    using sendMessage_open_returns [OF o [OF op] w, of ?now ?at True]
      handleSyncData_sent [OF _ op] handleSyncData_thrown [OF _ op]
    by blast
  have c9: "handleSyncRequest env eng = None"
    if op: "isChannelOpen eng" and n: "neverDrains ?tr ?k" and big: "MAX_CHUNK_SIZE < length ?rt"
    by (rule handleSyncRequest_hangs [OF sendMessage_open_hangs [OF o [OF op] big n] op])
  have c10: "handleSyncData env message eng = None"
    if op: "isChannelOpen eng" and n: "neverDrains ?tr ?k" and big: "MAX_CHUNK_SIZE < length ?at"
    by (rule handleSyncData_hangs [OF sendMessage_open_hangs [OF o [OF op] big n] op])
  show ?thesis
    using c1 c2 c3 c4 c5 c6 c7 c8 c9 c10 by (intro conjI impI) blast+
qed

lemma order_text: "natToString 1772323200000 = ''1772323200000''"
  by (simp add: natToString.simps digitChar_def) code_simp

lemma request_text:
  "sampleWrite (SyncData (localSnapshot sampleSurroundings sampleDb)) = sampleRequestText"
  by (simp add: sampleRequestText_def sampleWrite_def sampleWriteSnapshot_def sampleWriteList_def sampleWriteEntity_def
      localSnapshot_def sampleSurroundings_def sampleGetAll_def sampleDb_def sampleLocalN1_def
      collection_def)

lemma merged_sample:
  "dbNotes (fst (mergeRemoteData sampleParse (\<lambda>i. sampleClock) sampleSnapshot sampleDb))
     = [JStr ''N1'' \<mapsto> [(''id'', JStr ''N1''), (''title'', JStr ''final''), (''pinned'', JBool True),
               (''updatedAt'', JStr ''2026-02-01T00:00:00Z'')]]"
  "dbNotebooks (fst (mergeRemoteData sampleParse (\<lambda>i. sampleClock) sampleSnapshot sampleDb))
     = Map.empty"
  "dbFolders (fst (mergeRemoteData sampleParse (\<lambda>i. sampleClock) sampleSnapshot sampleDb))
     = [JStr ''F1'' \<mapsto> [(''id'', JStr ''F1''), (''name'', JStr defaultFolderName), (''parentId'', JNull),
               (''order'', JNum 1772323200000), (''createdAt'', JStr ''2026-03-01T00:00:00.000Z''),
               (''updatedAt'', JStr ''2026-01-01T00:00:00Z'')]]"
  "snd (mergeRemoteData sampleParse (\<lambda>i. sampleClock) sampleSnapshot sampleDb)
     = \<lparr>cntNotes = 1, cntNotebooks = 0, cntFolders = 1\<rparr>"
  by (simp_all add: merge_eval sampleParse_def sampleClock_def sampleSnapshot_def sampleDb_def
      sampleRemoteN1_def sampleLocalN1_def sampleFolderF1_def)

lemma ack_text:
  "sampleWrite (SyncAck (localSnapshot sampleSurroundings
      (fst (mergeRemoteData sampleParse (\<lambda>i. sampleClock) sampleSnapshot sampleDb))))
     = sampleAckText"
  by (simp add: sampleAckText_def sampleWrite_def sampleWriteSnapshot_def sampleWriteList_def
      sampleWriteEntity_def localSnapshot_def sampleSurroundings_def sampleGetAll_def
      merged_sample collection_def intToString_def order_text)

lemma sample_env:
  "envTransport sampleSurroundings = freeTransport" "envReading sampleSurroundings = 0"
  "envNow sampleSurroundings = 1772323200000" "envStringify sampleSurroundings = sampleWrite"
  "envDateParse sampleSurroundings = sampleParse" "envClock sampleSurroundings = (\<lambda>i. sampleClock)"
  by (simp_all add: sampleSurroundings_def)

lemma busy_engine:
  "store busyEngine = sampleDb" "channel busyEngine = openSender" "toasts busyEngine = []"
  "syncInProgress busyEngine" "isChannelOpen busyEngine" "sent openSender = []"
  by (simp_all add: busyEngine_def openSender_def isChannelOpen_def)

lemma short_texts:
  "length sampleRequestText \<le> MAX_CHUNK_SIZE" "length sampleAckText \<le> MAX_CHUNK_SIZE"
  by (simp_all add: sampleRequestText_def sampleAckText_def MAX_CHUNK_SIZE_def defaultFolderName_def)


lemma frames_short: "length data \<le> MAX_CHUNK_SIZE \<Longrightarrow> framesOf now data = [DataFrame data]"
  by (simp add: framesOf_def)

lemma closing_env:
  "envTransport closingSurroundings = closingTransport" "envReading closingSurroundings = 0"
  "envNow closingSurroundings = 1772323200000"
  "requestText closingSurroundings busyEngine = sampleRequestText @ replicate 40000 CHR '' ''"
  using request_text
  by (simp_all add: closingSurroundings_def sampleSurroundings_def busy_engine localSnapshot_def)

lemma closing_first_only:
  assumes o: "currentDataChannel st = Some Open" and t: "2 \<le> totalChunksOf data"
    and big: "MAX_CHUNK_SIZE < length data"
  shows "sendMessage closingTransport 0 now st data q
     = Some (st\<lparr>sent := sent st @ [envelope (toString36 now) (totalChunksOf data) data 0]\<rparr>,
             Inl ChannelClosedWhileSending)"
proof -
  have u: "[0..<totalChunksOf data] = 0 # Suc 0 # [2..<totalChunksOf data]"
    using t by (simp add: upt_rec numeral_2_eq_2)
  have w0: "waitForDrain closingTransport 0 = Some (Inr (Suc 0))"
    by (rule waitForDrain_free) (simp add: closingTransport_def)
  have w1: "waitForDrain closingTransport (Suc 0) = Some (Inl ChannelClosedWhileSending)"
    by (rule waitForDrain_closed) (simp_all add: closingTransport_def)
  show ?thesis
    by (simp add: sendMessage_def o big u w0 w1)
qed

lemma padded_text:
  "MAX_CHUNK_SIZE < length (sampleRequestText @ replicate 40000 CHR '' '')"
  "totalChunksOf (sampleRequestText @ replicate 40000 CHR '' '') = 3"
  by (simp_all add: sampleRequestText_def MAX_CHUNK_SIZE_def totalChunksOf_def)

lemma closing_request:
  "handleSyncRequest closingSurroundings busyEngine
     = Some (busyEngine\<lparr>syncInProgress := False,
          channel := openSender\<lparr>sent := [envelope (toString36 1772323200000) 3
             (sampleRequestText @ replicate 40000 CHR '' '') 0]\<rparr>,
          toasts := [NoticeSendSyncDataFailed]\<rparr>)"
proof -
  have o: "currentDataChannel (channel busyEngine) = Some Open"
    by (simp add: busyEngine_def openSender_def)
  have s: "sendMessage (envTransport closingSurroundings) (envReading closingSurroundings)
      (envNow closingSurroundings) (channel busyEngine) (requestText closingSurroundings busyEngine) True
     = Some ((channel busyEngine)\<lparr>sent := sent (channel busyEngine)
          @ [envelope (toString36 1772323200000) 3
             (sampleRequestText @ replicate 40000 CHR '' '') 0]\<rparr>, Inl ChannelClosedWhileSending)"
    using closing_first_only [OF o _ padded_text(1), where now = 1772323200000 and q = True]
    by (simp only: closing_env padded_text)
  show ?thesis
    using handleSyncRequest_thrown [OF s busy_engine(5)] by (simp add: busy_engine)
qed

text \<open>
  The engine in the middle of a sync: the replies carry the stored note, and after the merge
  the merged note and the new folder. The same engine with the channel closed, and with a
  channel that closes while the reply is sent.
\<close>

theorem sync_handlers_ignore_flag_witness:
  "isChannelOpen busyEngine \<and> syncInProgress busyEngine
   \<and> handleSyncRequest sampleSurroundings (busyEngine\<lparr>syncInProgress := False\<rparr>) =
       handleSyncRequest sampleSurroundings busyEngine
   \<and> handleSyncData sampleSurroundings sampleSnapshot (busyEngine\<lparr>syncInProgress := False\<rparr>) =
       handleSyncData sampleSurroundings sampleSnapshot busyEngine
   \<and> handleSyncRequest sampleSurroundings busyEngine
       = Some (busyEngine\<lparr>syncInProgress := True,
            channel := openSender\<lparr>sent := [DataFrame sampleRequestText]\<rparr>\<rparr>)
   \<and> handleSyncData sampleSurroundings sampleSnapshot busyEngine
       = Some (busyEngine\<lparr>syncInProgress := False,
            store := fst (mergeRemoteData sampleParse (\<lambda>i. sampleClock) sampleSnapshot sampleDb),
            channel := openSender\<lparr>sent := [DataFrame sampleAckText]\<rparr>,
            toasts := [NoticeReceiveComplete \<lparr>cntNotes = 1, cntNotebooks = 0, cntFolders = 1\<rparr>]\<rparr>)
   \<and> \<not> isChannelOpen closedEngine
   \<and> handleSyncRequest sampleSurroundings closedEngine
       = Some (closedEngine\<lparr>toasts := [NoticeDisconnected]\<rparr>)
   \<and> handleSyncData sampleSurroundings sampleSnapshot closedEngine
       = Some (closedEngine\<lparr>syncInProgress := False,
            store := fst (mergeRemoteData sampleParse (\<lambda>i. sampleClock) sampleSnapshot sampleDb)\<rparr>)
   \<and> everyWaitEnds (envTransport closingSurroundings) (envReading closingSurroundings)
   \<and> handleSyncRequest closingSurroundings busyEngine
       = Some (busyEngine\<lparr>syncInProgress := False,
            channel := openSender\<lparr>sent := [envelope (toString36 1772323200000) 3
               (sampleRequestText @ replicate 40000 CHR '' '') 0]\<rparr>,
            toasts := [NoticeSendSyncDataFailed]\<rparr>)"
proof -
  have c: "\<not> isChannelOpen closedEngine"
    by (simp add: isChannelOpen_def closedEngine_def openSender_def)
  have ce: "store closedEngine = sampleDb" "toasts closedEngine = []"
    by (simp_all add: closedEngine_def busyEngine_def)
  have rt: "requestText sampleSurroundings busyEngine = sampleRequestText"
    using request_text by (simp add: sample_env busy_engine)
  have at: "ackText sampleSurroundings sampleSnapshot busyEngine = sampleAckText"
    using ack_text by (simp add: sample_env busy_engine)
  note o = sync_handlers_ignore_flag [where eng = busyEngine and env = sampleSurroundings
      and b = False and message = sampleSnapshot]
  note cl = sync_handlers_ignore_flag [where eng = closedEngine and env = sampleSurroundings
      and b = False and message = sampleSnapshot]
  have f1: "handleSyncRequest sampleSurroundings (busyEngine\<lparr>syncInProgress := False\<rparr>) =
       handleSyncRequest sampleSurroundings busyEngine"
    using o busy_engine(5) by blast
  have f2: "handleSyncData sampleSurroundings sampleSnapshot (busyEngine\<lparr>syncInProgress := False\<rparr>) =
       handleSyncData sampleSurroundings sampleSnapshot busyEngine"
    using o by blast
  have "handleSyncRequest sampleSurroundings busyEngine
       = Some (busyEngine\<lparr>syncInProgress := True,
            channel := (channel busyEngine)\<lparr>sent := sent (channel busyEngine)
               @ framesOf (envNow sampleSurroundings) (requestText sampleSurroundings busyEngine)\<rparr>\<rparr>)"
    using o busy_engine(5) short_texts(1) rt by simp
  then have r: "handleSyncRequest sampleSurroundings busyEngine
       = Some (busyEngine\<lparr>syncInProgress := True,
            channel := openSender\<lparr>sent := [DataFrame sampleRequestText]\<rparr>\<rparr>)"
    by (simp add: frames_short [OF short_texts(1)] busy_engine sample_env request_text)
  have "handleSyncData sampleSurroundings sampleSnapshot busyEngine
          = Some (busyEngine\<lparr>syncInProgress := False,
               store := mergedStore sampleSurroundings sampleSnapshot busyEngine,
               channel := (channel busyEngine)\<lparr>sent := sent (channel busyEngine)
                  @ framesOf (envNow sampleSurroundings)
                      (ackText sampleSurroundings sampleSnapshot busyEngine)\<rparr>,
               toasts := toasts busyEngine
                  @ [NoticeReceiveComplete (mergedCounts sampleSurroundings sampleSnapshot busyEngine)]\<rparr>)"
    using o busy_engine(5) short_texts(2) at by simp
  then have a: "handleSyncData sampleSurroundings sampleSnapshot busyEngine
       = Some (busyEngine\<lparr>syncInProgress := False,
            store := fst (mergeRemoteData sampleParse (\<lambda>i. sampleClock) sampleSnapshot sampleDb),
            channel := openSender\<lparr>sent := [DataFrame sampleAckText]\<rparr>,
            toasts := [NoticeReceiveComplete \<lparr>cntNotes = 1, cntNotebooks = 0, cntFolders = 1\<rparr>]\<rparr>)"
    by (simp add: frames_short [OF short_texts(2)] busy_engine sample_env ack_text merged_sample(4))
  have "handleSyncRequest sampleSurroundings closedEngine
          = Some (closedEngine\<lparr>toasts := toasts closedEngine @ [NoticeDisconnected]\<rparr>)
        \<and> handleSyncData sampleSurroundings sampleSnapshot closedEngine
          = Some (closedEngine\<lparr>syncInProgress := False,
                store := mergedStore sampleSurroundings sampleSnapshot closedEngine\<rparr>)"
    using cl c by blast
  then have g: "handleSyncRequest sampleSurroundings closedEngine
       = Some (closedEngine\<lparr>toasts := [NoticeDisconnected]\<rparr>)"
    "handleSyncData sampleSurroundings sampleSnapshot closedEngine
       = Some (closedEngine\<lparr>syncInProgress := False,
            store := fst (mergeRemoteData sampleParse (\<lambda>i. sampleClock) sampleSnapshot sampleDb)\<rparr>)"
    by (simp_all add: ce sample_env)
  have w: "everyWaitEnds (envTransport closingSurroundings) (envReading closingSurroundings)"
    using closing_waits by (simp add: closing_env)
  show ?thesis
    using busy_engine(5) busy_engine(4) f1 f2 r a c g w closing_request by (intro conjI)
qed

text \<open>
  Claim C1, as the specification has it, fails. An engine whose flag is set receives a
  \<^verbatim>\<open>sync_request\<close> and answers it with its data; it receives a \<^verbatim>\<open>sync_data\<close>, merges it
  into the store, where the folder \<open>F1\<close> appears, and answers with a \<^verbatim>\<open>sync_ack\<close>.
\<close>

theorem busy_engine_processes_messages:
  "syncInProgress busyEngine
   \<and> handleSyncMessage sampleSurroundings SyncRequest busyEngine
       = Some (busyEngine\<lparr>channel := openSender\<lparr>sent := [DataFrame sampleRequestText]\<rparr>\<rparr>)
   \<and> handleSyncMessage sampleSurroundings (SyncData sampleSnapshot) busyEngine
       = Some (busyEngine\<lparr>syncInProgress := False,
            store := fst (mergeRemoteData sampleParse (\<lambda>i. sampleClock) sampleSnapshot sampleDb),
            channel := openSender\<lparr>sent := [DataFrame sampleAckText]\<rparr>,
            toasts := [NoticeReceiveComplete \<lparr>cntNotes = 1, cntNotebooks = 0, cntFolders = 1\<rparr>]\<rparr>)
   \<and> dbFolders (store busyEngine) (JStr ''F1'') = None
   \<and> dbFolders (fst (mergeRemoteData sampleParse (\<lambda>i. sampleClock) sampleSnapshot sampleDb))
         (JStr ''F1'')
       = Some [(''id'', JStr ''F1''), (''name'', JStr defaultFolderName), (''parentId'', JNull),
               (''order'', JNum 1772323200000), (''createdAt'', JStr ''2026-03-01T00:00:00.000Z''),
               (''updatedAt'', JStr ''2026-01-01T00:00:00Z'')]"
proof -
  have o: "currentDataChannel (channel busyEngine) = Some Open"
    by (simp add: busyEngine_def openSender_def)
  have rt: "requestText sampleSurroundings busyEngine = sampleRequestText"
    using request_text by (simp add: sample_env busy_engine)
  have at: "ackText sampleSurroundings sampleSnapshot busyEngine = sampleAckText"
    using ack_text by (simp add: sample_env busy_engine)
  have s1: "sendMessage (envTransport sampleSurroundings) (envReading sampleSurroundings)
      (envNow sampleSurroundings) (channel busyEngine) (requestText sampleSurroundings busyEngine) True
      = Some (openSender\<lparr>sent := [DataFrame sampleRequestText]\<rparr>, Inr True)"
    using sendMessage_open_succeeds [OF o, where data = sampleRequestText] short_texts(1)
    by (simp add: frames_short busy_engine sample_env request_text)
  have s2: "sendMessage (envTransport sampleSurroundings) (envReading sampleSurroundings)
      (envNow sampleSurroundings) (channel busyEngine)
      (ackText sampleSurroundings sampleSnapshot busyEngine) True
      = Some (openSender\<lparr>sent := [DataFrame sampleAckText]\<rparr>, Inr True)"
    using sendMessage_open_succeeds [OF o, where data = sampleAckText] short_texts(2)
    by (simp add: frames_short busy_engine sample_env ack_text)
  have r: "handleSyncMessage sampleSurroundings SyncRequest busyEngine
       = Some (busyEngine\<lparr>channel := openSender\<lparr>sent := [DataFrame sampleRequestText]\<rparr>\<rparr>)"
    using handleSyncRequest_sent [OF s1 busy_engine(5)]
    by (simp add: handleSyncMessage_def busyEngine_def)
  have a: "handleSyncMessage sampleSurroundings (SyncData sampleSnapshot) busyEngine
       = Some (busyEngine\<lparr>syncInProgress := False,
            store := fst (mergeRemoteData sampleParse (\<lambda>i. sampleClock) sampleSnapshot sampleDb),
            channel := openSender\<lparr>sent := [DataFrame sampleAckText]\<rparr>,
            toasts := [NoticeReceiveComplete \<lparr>cntNotes = 1, cntNotebooks = 0, cntFolders = 1\<rparr>]\<rparr>)"
    using handleSyncData_sent [OF s2 busy_engine(5)]
    by (simp add: handleSyncMessage_def busy_engine sample_env merged_sample(4))
  have g: "dbFolders (store busyEngine) (JStr ''F1'') = None"
    by (simp add: busyEngine_def sampleDb_def)
  have f: "dbFolders (fst (mergeRemoteData sampleParse (\<lambda>i. sampleClock) sampleSnapshot sampleDb))
         (JStr ''F1'')
       = Some [(''id'', JStr ''F1''), (''name'', JStr defaultFolderName), (''parentId'', JNull),
               (''order'', JNum 1772323200000), (''createdAt'', JStr ''2026-03-01T00:00:00.000Z''),
               (''updatedAt'', JStr ''2026-01-01T00:00:00Z'')]"
    by (simp add: merged_sample(3))
  show ?thesis using busy_engine(4) r a g f by (intro conjI)
qed


end
